theory Spec2Isabelle
  imports
    Main
    "HOL-Library.Char_ord"
    "HOL-Library.List_Lexorder"
    "HOL-Library.Product_Lexorder"
    "HOL-Library.Multiset"
begin

section \<open>The type index generator \<^verbatim>\<open>docs/generate_type_index.py\<close>\<close>

text \<open>
  The script walks the repository for \<^verbatim>\<open>*.rs\<close> files, records every line that
  declares a \<^verbatim>\<open>struct\<close> or an \<^verbatim>\<open>enum\<close>, aborts when a name is declared twice and
  otherwise writes a markdown table sorted by name.

  Conventions of the embedding:
  \<^item> a Python \<^verbatim>\<open>str\<close> is a \<^typ>\<open>string\<close>; a \<^typ>\<open>char\<close> stands for a code point below 256,
    so the character classes below are Python's classes restricted to that range;
  \<^item> a \<^verbatim>\<open>pathlib.Path\<close> is the list of its \<^verbatim>\<open>parts\<close> on a POSIX system, and paths are
    compared as these lists are, part by part;
  \<^item> \<^verbatim>\<open>ROOT\<close>, the resolved parent of the script's directory, is a parameter;
  \<^item> the file system is a parameter too: the entries found below \<^verbatim>\<open>ROOT\<close> in the order
    the file system lists them, what \<^verbatim>\<open>read_text\<close> yields for each path, and whether
    \<^verbatim>\<open>write_text\<close> succeeds;
  \<^item> an exception is a value of type \<open>exn\<close>, and a function that can raise returns a sum
    with the exception on the left;
  \<^item> an output stream is the list of the strings printed to it, one for each \<^verbatim>\<open>print\<close>.
\<close>

subsection \<open>Strings\<close>

definition isspace :: "char \<Rightarrow> bool" where
  \<comment> \<open>\<^verbatim>\<open>str.isspace\<close>, which is also the class \<^verbatim>\<open>\s\<close> of \<^verbatim>\<open>re\<close> on \<^verbatim>\<open>str\<close> patterns\<close>
  "isspace c = ((of_char c :: nat) \<in> {9, 10, 11, 12, 13, 28, 29, 30, 31, 32, 133, 160})"

definition is_linebreak :: "char \<Rightarrow> bool" where
  \<comment> \<open>the line boundaries of \<^verbatim>\<open>str.splitlines\<close>\<close>
  "is_linebreak c = ((of_char c :: nat) \<in> {10, 11, 12, 13, 28, 29, 30, 133})"

definition is_upper :: "char \<Rightarrow> bool" where
  \<comment> \<open>\<^verbatim>\<open>[A-Z]\<close>\<close>
  "is_upper c = (65 \<le> (of_char c :: nat) \<and> (of_char c :: nat) \<le> 90)"

definition is_lower :: "char \<Rightarrow> bool" where
  \<comment> \<open>\<^verbatim>\<open>[a-z]\<close>\<close>
  "is_lower c = (97 \<le> (of_char c :: nat) \<and> (of_char c :: nat) \<le> 122)"

definition is_digit :: "char \<Rightarrow> bool" where
  \<comment> \<open>\<^verbatim>\<open>[0-9]\<close>\<close>
  "is_digit c = (48 \<le> (of_char c :: nat) \<and> (of_char c :: nat) \<le> 57)"

definition is_word :: "char \<Rightarrow> bool" where
  \<comment> \<open>\<^verbatim>\<open>[A-Za-z0-9_]\<close>\<close>
  "is_word c = (is_upper c \<or> is_lower c \<or> is_digit c \<or> c = CHR ''_'')"

definition lstrip :: "string \<Rightarrow> string" where
  \<comment> \<open>\<^verbatim>\<open>str.lstrip()\<close>\<close>
  "lstrip s = dropWhile isspace s"

definition startswith :: "string \<Rightarrow> string \<Rightarrow> bool" where
  "startswith s p = (take (length p) s = p)"

definition endswith :: "string \<Rightarrow> string \<Rightarrow> bool" where
  "endswith s p = (length p \<le> length s \<and> drop (length s - length p) s = p)"

fun splitlines_from :: "string \<Rightarrow> string \<Rightarrow> string list" where
  "splitlines_from cur [] = (if cur = [] then [] else [cur])"
| "splitlines_from cur [c] = (if is_linebreak c then [cur] else [cur @ [c]])"
| "splitlines_from cur (c # d # cs) =
     (if is_linebreak c then
        cur # (if c = CHR 0x0D \<and> d = CHR 0x0A then splitlines_from [] cs
               else splitlines_from [] (d # cs))
      else splitlines_from (cur @ [c]) (d # cs))"

definition splitlines :: "string \<Rightarrow> string list" where
  \<comment> \<open>\<^verbatim>\<open>str.splitlines()\<close>: the boundaries are dropped, \<^verbatim>\<open>\r\n\<close> is one boundary and
      a final boundary opens no further line\<close>
  "splitlines text = splitlines_from [] text"

fun join :: "string \<Rightarrow> string list \<Rightarrow> string" where
  "join sep [] = []"
| "join sep [x] = x"
| "join sep (x # y # xs) = x @ sep @ join sep (y # xs)"

fun enumerate_from :: "int \<Rightarrow> 'a list \<Rightarrow> (int \<times> 'a) list" where
  \<comment> \<open>\<^verbatim>\<open>enumerate(xs, start=n)\<close>\<close>
  "enumerate_from n [] = []"
| "enumerate_from n (x # xs) = (n, x) # enumerate_from (n + 1) xs"

definition digit_char :: "nat \<Rightarrow> char" where
  "digit_char d = char_of (48 + d)"

fun digits :: "nat \<Rightarrow> string" where
  "digits n = (if n < 10 then [digit_char n] else digits (n div 10) @ [digit_char (n mod 10)])"

declare digits.simps [simp del]

definition str_int :: "int \<Rightarrow> string" where
  \<comment> \<open>the decimal rendering of an \<^verbatim>\<open>int\<close> in an f-string\<close>
  "str_int i = (if i < 0 then CHR ''-'' # digits (nat (- i)) else digits (nat i))"

subsection \<open>Paths and exceptions\<close>

type_synonym path = "string list"

datatype exn = UnicodeDecodeError | OSError string | ValueError | SystemExit int

definition relative_to :: "path \<Rightarrow> path \<Rightarrow> exn + path" where
  \<comment> \<open>\<^verbatim>\<open>path.relative_to(root)\<close> raises \<^verbatim>\<open>ValueError\<close> for a path outside \<^verbatim>\<open>root\<close>\<close>
  "relative_to p root =
     (if take (length root) p = root then Inr (drop (length root) p) else Inl ValueError)"

definition as_posix :: "path \<Rightarrow> string" where
  \<comment> \<open>\<^verbatim>\<open>as_posix()\<close> of a relative path, which on POSIX is also its \<^verbatim>\<open>str()\<close>\<close>
  "as_posix p = (if p = [] then ''.'' else join ''/'' p)"

definition IGNORE_DIRS :: "string list" where
  "IGNORE_DIRS = [''.git'', ''target'', ''node_modules'']"

definition should_skip :: "path \<Rightarrow> bool" where
  \<comment> \<open>\<^verbatim>\<open>any(part in IGNORE_DIRS for part in path.parts)\<close>\<close>
  "should_skip p = list_ex (\<lambda>part. part \<in> set IGNORE_DIRS) p"

definition rglob_rs :: "path \<Rightarrow> path list \<Rightarrow> path list" where
  \<comment> \<open>\<^verbatim>\<open>ROOT.rglob("*.rs")\<close>: of the entries below \<^verbatim>\<open>ROOT\<close>, given relative to it in the
      order the file system yields them, those whose name ends in \<^verbatim>\<open>.rs\<close>, as paths that
      start with \<^verbatim>\<open>ROOT\<close>\<close>
  "rglob_rs ROOT entries =
     map (\<lambda>rel. ROOT @ rel) (filter (\<lambda>rel. rel \<noteq> [] \<and> endswith (last rel) ''.rs'') entries)"

subsection \<open>The pattern\<close>

text \<open>
  \<^verbatim>\<open>PATTERN = re.compile(r"^\s*(pub(?:\([^)]*\))?\s+)?(struct|enum)\s+([A-Z][A-Za-z0-9_]*)")\<close>

  The pattern uses literals, character classes, starred and plussed classes, sequence,
  alternative and option; \<open>rexp\<close> has these forms, and \<open>lang\<close> gives the strings a pattern
  matches as a whole.
\<close>

datatype rexp =
    Lit string
  | Atom "char \<Rightarrow> bool"
  | Many "char \<Rightarrow> bool"
  | Many1 "char \<Rightarrow> bool"
  | Seq rexp rexp
  | Alt rexp rexp
  | Opt rexp

primrec lang :: "rexp \<Rightarrow> string set" where
  "lang (Lit s) = {s}"
| "lang (Atom P) = {[c] |c. P c}"
| "lang (Many P) = {s. list_all P s}"
| "lang (Many1 P) = {s. s \<noteq> [] \<and> list_all P s}"
| "lang (Seq a b) = {u @ v |u v. u \<in> lang a \<and> v \<in> lang b}"
| "lang (Alt a b) = lang a \<union> lang b"
| "lang (Opt a) = insert [] (lang a)"

definition scope_re :: rexp where
  \<comment> \<open>\<^verbatim>\<open>(?:\([^)]*\))?\<close>\<close>
  "scope_re = Opt (Seq (Lit ''('') (Seq (Many (\<lambda>c. c \<noteq> CHR '')'')) (Lit '')'')))"

definition vis_re :: rexp where
  \<comment> \<open>\<^verbatim>\<open>(pub(?:\([^)]*\))?\s+)?\<close>\<close>
  "vis_re = Opt (Seq (Lit ''pub'') (Seq scope_re (Many1 isspace)))"

definition PATTERN :: rexp where
  "PATTERN =
     Seq (Many isspace)
       (Seq vis_re
          (Seq (Alt (Lit ''struct'') (Lit ''enum''))
             (Seq (Many1 isspace)
                (Seq (Atom is_upper) (Many is_word)))))"

text \<open>
  \<^verbatim>\<open>PATTERN.match(line)\<close> looks for a match that begins at the start of the line and need
  not reach its end, and it returns the groups of the first match that backtracking finds.
  The functions below compute it: each consumes one piece of the pattern from the front of
  the text and returns what is left. The starred classes are greedy, and they never have to
  give a character back: what follows \<^verbatim>\<open>\s*\<close> and \<^verbatim>\<open>\s+\<close> begins with a letter, what
  follows \<^verbatim>\<open>[^)]*\<close> is the closing parenthesis, and the name ends the pattern. That
  \<open>PATTERN_match\<close> succeeds exactly on the lines with a prefix in \<open>lang PATTERN\<close> is
  lemma \<open>PATTERN_match_lang\<close> below; lemma \<open>PATTERN_match_groups\<close> gives the two groups.
\<close>

definition match_spaces1 :: "string \<Rightarrow> string option" where
  \<comment> \<open>\<^verbatim>\<open>\s+\<close>\<close>
  "match_spaces1 s =
     (case s of [] \<Rightarrow> None
      | c # t \<Rightarrow> if isspace c then Some (dropWhile isspace t) else None)"

definition match_scope :: "string \<Rightarrow> string" where
  \<comment> \<open>\<^verbatim>\<open>(?:\([^)]*\))?\<close>: without a closing parenthesis the group matches nothing\<close>
  "match_scope s =
     (case s of [] \<Rightarrow> s
      | c # t \<Rightarrow>
          if c = CHR ''('' then
            (case dropWhile (\<lambda>x. x \<noteq> CHR '')'') t of [] \<Rightarrow> s | _ # u \<Rightarrow> u)
          else s)"

definition match_vis :: "string \<Rightarrow> string" where
  \<comment> \<open>\<^verbatim>\<open>(pub(?:\([^)]*\))?\s+)?\<close>: where the group fails the match goes on without it\<close>
  "match_vis s =
     (if startswith s ''pub'' then
        (case match_spaces1 (match_scope (drop 3 s)) of None \<Rightarrow> s | Some r \<Rightarrow> r)
      else s)"

definition match_kind :: "string \<Rightarrow> (string \<times> string) option" where
  \<comment> \<open>\<^verbatim>\<open>(struct|enum)\<close>, group 2\<close>
  "match_kind s =
     (if startswith s ''struct'' then Some (''struct'', drop 6 s)
      else if startswith s ''enum'' then Some (''enum'', drop 4 s)
      else None)"

definition match_name :: "string \<Rightarrow> string option" where
  \<comment> \<open>\<^verbatim>\<open>([A-Z][A-Za-z0-9_]*)\<close>, group 3\<close>
  "match_name s =
     (case s of [] \<Rightarrow> None
      | c # t \<Rightarrow> if is_upper c then Some (c # takeWhile is_word t) else None)"

definition PATTERN_match :: "string \<Rightarrow> (string \<times> string) option" where
  \<comment> \<open>\<^verbatim>\<open>PATTERN.match(line)\<close>: \<open>None\<close>, or groups 2 and 3 of the match\<close>
  "PATTERN_match line =
     (case match_kind (match_vis (dropWhile isspace line)) of
        None \<Rightarrow> None
      | Some (kind, s) \<Rightarrow>
          (case match_spaces1 s of
             None \<Rightarrow> None
           | Some s' \<Rightarrow>
               (case match_name s' of
                  None \<Rightarrow> None
                | Some name \<Rightarrow> Some (kind, name))))"

subsection \<open>Scanning\<close>

text \<open>
  A record is the tuple of name, kind, path and line number; \<^verbatim>\<open>types\<close> is the list of
  the records in the order of the scan, and \<^verbatim>\<open>seen\<close> maps each name to its locations. A
  Python dictionary keeps its keys in the order of their insertion, which the report of
  duplicates follows, so \<^verbatim>\<open>seen\<close> is an association list.
\<close>

type_synonym entry = "string \<times> string \<times> path \<times> int"

type_synonym seen_dict = "(string \<times> (path \<times> int) list) list"

type_synonym scan_state = "entry list \<times> seen_dict"

fun setdefault_append :: "seen_dict \<Rightarrow> string \<Rightarrow> path \<times> int \<Rightarrow> seen_dict" where
  \<comment> \<open>\<^verbatim>\<open>seen.setdefault(name, []).append(loc)\<close> on a dictionary in insertion order\<close>
  "setdefault_append [] name loc = [(name, [loc])]"
| "setdefault_append ((k, locs) # d) name loc =
     (if k = name then (k, locs @ [loc]) # d else (k, locs) # setdefault_append d name loc)"

definition scan_line :: "path \<Rightarrow> scan_state \<Rightarrow> int \<times> string \<Rightarrow> scan_state" where
  \<comment> \<open>the body of the loop over the lines of one file\<close>
  "scan_line p st il =
     (case st of (types, seen) \<Rightarrow>
      case il of (idx, line) \<Rightarrow>
        let stripped = lstrip line in
        if startswith stripped ''//'' \<or> startswith stripped ''/*'' then st
        else
          (case PATTERN_match line of
             None \<Rightarrow> st
           | Some (kind, name) \<Rightarrow>
               (types @ [(name, kind, p, idx)], setdefault_append seen name (p, idx))))"

definition scan_text :: "path \<Rightarrow> string \<Rightarrow> scan_state \<Rightarrow> scan_state" where
  \<comment> \<open>\<^verbatim>\<open>for idx, line in enumerate(text.splitlines(), start=1)\<close>\<close>
  "scan_text p text st = foldl (scan_line p) st (enumerate_from 1 (splitlines text))"

fun scan_files :: "(path \<Rightarrow> exn + string) \<Rightarrow> path list \<Rightarrow> scan_state \<Rightarrow> exn + scan_state" where
  \<comment> \<open>the loop over the paths: only \<^verbatim>\<open>UnicodeDecodeError\<close> is caught\<close>
  "scan_files read_text [] st = Inr st"
| "scan_files read_text (p # ps) st =
     (if should_skip p then scan_files read_text ps st
      else
        (case read_text p of
           Inl e \<Rightarrow> if e = UnicodeDecodeError then scan_files read_text ps st else Inl e
         | Inr text \<Rightarrow> scan_files read_text ps (scan_text p text st)))"

fun print_locations :: "path \<Rightarrow> string \<Rightarrow> (path \<times> int) list \<Rightarrow> string list \<Rightarrow> string list \<times> exn option" where
  \<comment> \<open>the loop over the locations of one duplicated name, printing to \<^verbatim>\<open>sys.stderr\<close>\<close>
  "print_locations ROOT name [] err = (err, None)"
| "print_locations ROOT name ((p, line) # locs) err =
     (case relative_to p ROOT of
        Inl e \<Rightarrow> (err, Some e)
      | Inr rel \<Rightarrow>
          print_locations ROOT name locs
            (err @ [''  '' @ name @ '': '' @ as_posix rel @ ''#L'' @ str_int line]))"

fun print_duplicates :: "path \<Rightarrow> seen_dict \<Rightarrow> string list \<Rightarrow> string list \<times> exn option" where
  \<comment> \<open>the loop over the duplicated names\<close>
  "print_duplicates ROOT [] err = (err, None)"
| "print_duplicates ROOT ((name, locations) # d) err =
     (case print_locations ROOT name locations err of
        (err', Some e) \<Rightarrow> (err', Some e)
      | (err', None) \<Rightarrow> print_duplicates ROOT d err')"

definition collect_types ::
  "path \<Rightarrow> (path \<Rightarrow> exn + string) \<Rightarrow> path list \<Rightarrow> string list \<times> (exn + entry list)" where
  \<comment> \<open>returns what was printed to \<^verbatim>\<open>sys.stderr\<close>, and the exception raised or the list returned\<close>
  "collect_types ROOT read_text entries =
     (case scan_files read_text (sort (rglob_rs ROOT entries)) ([], []) of
        Inl e \<Rightarrow> ([], Inl e)
      | Inr (types, seen) \<Rightarrow>
          let duplicates = filter (\<lambda>(name, locs). length locs > 1) seen in
          if duplicates \<noteq> [] then
            (case print_duplicates ROOT duplicates [''Duplicate type definitions found:''] of
               (err, Some e) \<Rightarrow> (err, Inl e)
             | (err, None) \<Rightarrow> (err, Inl (SystemExit 1)))
          else ([], Inr (sort_key fst types)))"

subsection \<open>Rendering\<close>

fun append_rows :: "path \<Rightarrow> entry list \<Rightarrow> string list \<Rightarrow> exn + string list" where
  \<comment> \<open>the loop of \<^verbatim>\<open>render_table\<close>, appending one row for each entry\<close>
  "append_rows ROOT [] lines = Inr lines"
| "append_rows ROOT ((name, kind, p, line) # types) lines =
     (case relative_to p ROOT of
        Inl e \<Rightarrow> Inl e
      | Inr rel \<Rightarrow>
          append_rows ROOT types
            (lines @ [''| '' @ name @ '' | '' @ kind @ '' | `'' @ as_posix rel @ ''#L''
                        @ str_int line @ ''` |'']))"

definition render_table :: "path \<Rightarrow> entry list \<Rightarrow> exn + string" where
  "render_table ROOT types =
     (case append_rows ROOT types
             [''# Type Index'',
              '''',
              ''This file lists every `struct` and `enum` defined in the repository.'',
              '''',
              ''| Type | Kind | Location |'',
              ''| --- | --- | --- |''] of
        Inl e \<Rightarrow> Inl e
      | Inr lines \<Rightarrow>
          Inr (join [CHR 0x0A]
                 (lines @ ['''',
                           ''Generated automatically to support DRY efforts.'',
                           '''',
                           ''Run `python docs/generate_type_index.py` to regenerate.'',
                           ''''])))"

subsection \<open>The entry point\<close>

text \<open>
  A run of \<^verbatim>\<open>main\<close> is described by what it printed to the two streams, the file it wrote
  with its content, if any, and the exception that ended it, if any.
\<close>

record run =
  stdout :: "string list"
  stderr :: "string list"
  written :: "(path \<times> string) option"
  raised :: "exn option"

definition exit_status :: "run \<Rightarrow> int" where
  \<comment> \<open>the interpreter exits with the code of \<^verbatim>\<open>sys.exit\<close>, with 1 on any other uncaught
      exception and with 0 when \<^verbatim>\<open>main\<close> returns\<close>
  "exit_status r =
     (case raised r of None \<Rightarrow> 0 | Some (SystemExit n) \<Rightarrow> n | Some _ \<Rightarrow> 1)"

definition main ::
  "path \<Rightarrow> (path \<Rightarrow> exn + string) \<Rightarrow> (path \<Rightarrow> string \<Rightarrow> exn option) \<Rightarrow> path list \<Rightarrow> run" where
  \<comment> \<open>\<open>write_text p s\<close> is the exception that writing \<open>s\<close> to \<open>p\<close> raises, if any\<close>
  "main ROOT read_text write_text entries =
     (case collect_types ROOT read_text entries of
        (err, Inl e) \<Rightarrow> \<lparr>stdout = [], stderr = err, written = None, raised = Some e\<rparr>
      | (err, Inr types) \<Rightarrow>
          (case render_table ROOT types of
             Inl e \<Rightarrow> \<lparr>stdout = [], stderr = err, written = None, raised = Some e\<rparr>
           | Inr output \<Rightarrow>
               let output_path = ROOT @ [''docs'', ''TYPE_INDEX.md''] in
               (case write_text output_path output of
                  Some e \<Rightarrow> \<lparr>stdout = [], stderr = err, written = None, raised = Some e\<rparr>
                | None \<Rightarrow>
                    (case relative_to output_path ROOT of
                       Inl e \<Rightarrow>
                         \<lparr>stdout = [], stderr = err,
                          written = Some (output_path, output), raised = Some e\<rparr>
                     | Inr rel \<Rightarrow>
                         \<lparr>stdout = [''Wrote '' @ as_posix rel @ '' with ''
                                       @ str_int (int (length types)) @ '' entries.''],
                          stderr = err,
                          written = Some (output_path, output), raised = None\<rparr>))))"

subsection \<open>Declaration lines as the specification describes them\<close>

text \<open>
  The specification describes the lines that yield a record: leading whitespace, an optional
  visibility qualifier (\<^verbatim>\<open>pub\<close>, optionally followed by a parenthesised scope, which
  ends at the first closing parenthesis) followed by whitespace, the keyword, whitespace,
  and an identifier that starts with an uppercase ASCII letter and continues with letters,
  digits or underscores. The line may go on after the identifier, as in
  \<^verbatim>\<open>struct Bar // trailing comment\<close>. These predicates follow that description, not
  the code.
\<close>

definition all_space :: "string \<Rightarrow> bool" where
  \<comment> \<open>whitespace, possibly none\<close>
  "all_space s = list_all isspace s"

definition is_scope :: "string \<Rightarrow> bool" where
  \<comment> \<open>the optional parenthesised scope\<close>
  "is_scope s = (s = [] \<or> (\<exists>inner. s = ''('' @ inner @ '')'' \<and> CHR '')'' \<notin> set inner))"

definition is_visibility :: "string \<Rightarrow> bool" where
  \<comment> \<open>the optional visibility qualifier with the whitespace that follows it\<close>
  "is_visibility v =
     (v = [] \<or> (\<exists>scope ws. v = ''pub'' @ scope @ ws \<and> is_scope scope \<and> ws \<noteq> [] \<and> all_space ws))"

definition is_keyword :: "string \<Rightarrow> bool" where
  "is_keyword kw = (kw = ''struct'' \<or> kw = ''enum'')"

definition declaration_line :: "string \<Rightarrow> bool" where
  "declaration_line line =
     (\<exists>ws vis kw ws' c cs rest.
        line = ws @ vis @ kw @ ws' @ c # cs @ rest \<and> all_space ws \<and> is_visibility vis \<and>
        is_keyword kw \<and> ws' \<noteq> [] \<and> all_space ws' \<and> is_upper c \<and> list_all is_word cs)"

definition lowercase_line :: "string \<Rightarrow> bool" where
  \<comment> \<open>a line whose identifier after the keyword begins with a lowercase letter\<close>
  "lowercase_line line =
     (\<exists>ws vis kw ws' c rest.
        line = ws @ vis @ kw @ ws' @ c # rest \<and> all_space ws \<and> is_visibility vis \<and>
        is_keyword kw \<and> ws' \<noteq> [] \<and> all_space ws' \<and> is_lower c)"

definition no_space_head :: "string \<Rightarrow> bool" where
  \<comment> \<open>the text does not begin with whitespace\<close>
  "no_space_head s = (case s of [] \<Rightarrow> True | c # _ \<Rightarrow> \<not> isspace c)"

subsection \<open>The records of a scan\<close>

text \<open>
  The loops of \<^verbatim>\<open>collect_types\<close> accumulate their results in two variables. The
  functions below give the same results in closed form: the record of one line, the records
  of one file, those of the whole walk, and the first exception that is not caught.
\<close>

definition line_entry :: "path \<Rightarrow> int \<times> string \<Rightarrow> entry option" where
  "line_entry p il =
     (case il of (idx, line) \<Rightarrow>
        if startswith (lstrip line) ''//'' \<or> startswith (lstrip line) ''/*'' then None
        else map_option (\<lambda>(kind, name). (name, kind, p, idx)) (PATTERN_match line))"

definition text_entries :: "path \<Rightarrow> string \<Rightarrow> entry list" where
  "text_entries p text = List.map_filter (line_entry p) (enumerate_from 1 (splitlines text))"

definition file_entries :: "(path \<Rightarrow> exn + string) \<Rightarrow> path \<Rightarrow> entry list" where
  "file_entries read_text p =
     (if should_skip p then []
      else case read_text p of Inl e \<Rightarrow> [] | Inr text \<Rightarrow> text_entries p text)"

fun first_error :: "(path \<Rightarrow> exn + string) \<Rightarrow> path list \<Rightarrow> exn option" where
  "first_error read_text [] = None"
| "first_error read_text (p # ps) =
     (if should_skip p then first_error read_text ps
      else case read_text p of
             Inl e \<Rightarrow> if e = UnicodeDecodeError then first_error read_text ps else Some e
           | Inr text \<Rightarrow> first_error read_text ps)"

definition scanned :: "path \<Rightarrow> (path \<Rightarrow> exn + string) \<Rightarrow> path list \<Rightarrow> entry list" where
  "scanned ROOT read_text entries =
     concat (map (file_entries read_text) (sort (rglob_rs ROOT entries)))"

definition entry_loc :: "entry \<Rightarrow> path \<times> int" where
  \<comment> \<open>the location of a record: its path and line number\<close>
  "entry_loc e = (case e of (name, kind, p, idx) \<Rightarrow> (p, idx))"

definition entry_path :: "entry \<Rightarrow> path" where
  "entry_path e = fst (entry_loc e)"

definition under :: "path \<Rightarrow> path \<Rightarrow> bool" where
  \<comment> \<open>the path lies below \<^verbatim>\<open>ROOT\<close>, so that \<^verbatim>\<open>relative_to\<close> succeeds\<close>
  "under ROOT p = (take (length ROOT) p = ROOT)"

subsection \<open>Duplicated names and their report\<close>

text \<open>
  The dictionary \<^verbatim>\<open>seen\<close> holds, for each name in the order of its first occurrence, the
  locations of the records with that name in the order of the scan.
\<close>

definition index_add :: "seen_dict \<Rightarrow> entry \<Rightarrow> seen_dict" where
  \<comment> \<open>what recording one entry does to \<^verbatim>\<open>seen\<close>\<close>
  "index_add seen e = (case e of (name, kind, p, idx) \<Rightarrow> setdefault_append seen name (p, idx))"

fun first_seen :: "'a list \<Rightarrow> 'a list" where
  \<comment> \<open>the elements of a list, each once, in the order of their first occurrence\<close>
  "first_seen [] = []"
| "first_seen (x # xs) = x # filter (\<lambda>y. y \<noteq> x) (first_seen xs)"

definition occurrences :: "entry list \<Rightarrow> string \<Rightarrow> (path \<times> int) list" where
  \<comment> \<open>the locations of the records with a given name, in the order of the records\<close>
  "occurrences types n = map entry_loc (filter (\<lambda>e. fst e = n) types)"

definition duplicated_names :: "entry list \<Rightarrow> string list" where
  "duplicated_names types =
     filter (\<lambda>n. 1 < length (occurrences types n)) (first_seen (map fst types))"

definition diagnostic_line :: "path \<Rightarrow> string \<Rightarrow> path \<times> int \<Rightarrow> string" where
  \<comment> \<open>\<^verbatim>\<open>name: relative/path#Lline\<close>, indented by two spaces\<close>
  "diagnostic_line ROOT n loc =
     (case loc of (p, line) \<Rightarrow>
        ''  '' @ n @ '': '' @ as_posix (drop (length ROOT) p) @ ''#L'' @ str_int line)"

definition duplicate_report :: "path \<Rightarrow> entry list \<Rightarrow> string list" where
  "duplicate_report ROOT types =
     concat (map (\<lambda>n. map (diagnostic_line ROOT n) (occurrences types n))
                 (duplicated_names types))"

subsection \<open>The rows of the document\<close>

definition table_row :: "path \<Rightarrow> entry \<Rightarrow> string" where
  \<comment> \<open>the row of a record: its name, its kind, and its location as
      \<^verbatim>\<open>relative/path#Lline\<close> between backquotes\<close>
  "table_row ROOT e =
     (case e of (name, kind, p, line) \<Rightarrow>
        ''| '' @ name @ '' | '' @ kind @ '' | `'' @ as_posix (drop (length ROOT) p) @ ''#L''
          @ str_int line @ ''` |'')"

definition empty_report :: string where
  \<comment> \<open>the document without a data row\<close>
  "empty_report =
     ''# Type Index'' @ [CHR 0x0A, CHR 0x0A]
     @ ''This file lists every `struct` and `enum` defined in the repository.'' @ [CHR 0x0A, CHR 0x0A]
     @ ''| Type | Kind | Location |'' @ [CHR 0x0A]
     @ ''| --- | --- | --- |'' @ [CHR 0x0A, CHR 0x0A]
     @ ''Generated automatically to support DRY efforts.'' @ [CHR 0x0A, CHR 0x0A]
     @ ''Run `python docs/generate_type_index.py` to regenerate.'' @ [CHR 0x0A]"

section \<open>The declaration scanner\<close>

subsection \<open>Lines of the described form are matched\<close>

lemma dropWhile_spaces: "all_space ws \<Longrightarrow> no_space_head s \<Longrightarrow> dropWhile isspace (ws @ s) = s"
  by (induction ws) (auto simp: all_space_def no_space_head_def split: list.splits)

lemma match_spaces1_append:
  "ws \<noteq> [] \<Longrightarrow> all_space ws \<Longrightarrow> no_space_head s \<Longrightarrow> match_spaces1 (ws @ s) = Some s"
  by (cases ws) (auto simp: match_spaces1_def all_space_def dropWhile_spaces)

lemma keyword_no_space_head: "is_keyword kw \<Longrightarrow> no_space_head (kw @ s)"
  by (auto simp: is_keyword_def no_space_head_def isspace_def)

lemma keyword_not_pub: "is_keyword kw \<Longrightarrow> \<not> startswith (kw @ s) ''pub''"
  by (auto simp: is_keyword_def startswith_def)

lemma dropWhile_to_paren:
  "CHR '')'' \<notin> set inner \<Longrightarrow> dropWhile (\<lambda>x. x \<noteq> CHR '')'') (inner @ CHR '')'' # s) = CHR '')'' # s"
  by (induction inner) auto

lemma match_scope_append:
  "is_scope scope \<Longrightarrow> ws \<noteq> [] \<Longrightarrow> all_space ws \<Longrightarrow> match_scope (scope @ ws @ s) = ws @ s"
  by (cases ws) (auto simp: is_scope_def match_scope_def dropWhile_to_paren all_space_def isspace_def)

lemma match_vis_append:
  assumes "is_visibility vis" "is_keyword kw"
  shows "match_vis (vis @ kw @ s) = kw @ s"
proof (cases "vis = []")
  case True
  then show ?thesis using assms keyword_not_pub by (simp add: match_vis_def)
next
  case False
  then obtain scope ws where v: "vis = ''pub'' @ scope @ ws" "is_scope scope" "ws \<noteq> []" "all_space ws"
    using assms(1) unfolding is_visibility_def by blast
  have "match_spaces1 (match_scope (scope @ ws @ kw @ s)) = Some (kw @ s)"
    using v assms(2) by (simp add: match_scope_append match_spaces1_append keyword_no_space_head)
  then show ?thesis using v by (simp add: match_vis_def startswith_def)
qed

lemma match_kind_append: "is_keyword kw \<Longrightarrow> match_kind (kw @ s) = Some (kw, s)"
  by (auto simp: is_keyword_def match_kind_def startswith_def)

lemma visibility_no_space_head:
  "is_visibility vis \<Longrightarrow> is_keyword kw \<Longrightarrow> no_space_head (vis @ kw @ s)"
  by (auto simp: is_visibility_def is_keyword_def no_space_head_def isspace_def)

lemma PATTERN_match_parse:
  assumes "all_space ws" "is_visibility vis" "is_keyword kw" "ws' \<noteq> []" "all_space ws'"
    "no_space_head r"
  shows "PATTERN_match (ws @ vis @ kw @ ws' @ r) = map_option (Pair kw) (match_name r)"
  using assms
  by (simp add: PATTERN_match_def dropWhile_spaces visibility_no_space_head match_vis_append
      match_kind_append match_spaces1_append split: option.splits)

lemma upper_no_space: "is_upper c \<Longrightarrow> \<not> isspace c"
  by (auto simp: is_upper_def isspace_def)

lemma lower_no_space: "is_lower c \<Longrightarrow> \<not> isspace c"
  by (auto simp: is_lower_def isspace_def)

lemma lower_not_upper: "is_lower c \<Longrightarrow> \<not> is_upper c"
  by (auto simp: is_lower_def is_upper_def)

lemma PATTERN_match_complete:
  assumes "declaration_line line"
  shows "\<exists>kind name. PATTERN_match line = Some (kind, name)"
proof -
  from assms obtain ws vis kw ws' c cs rest where
    l: "line = ws @ vis @ kw @ ws' @ c # cs @ rest" and
    h: "all_space ws" "is_visibility vis" "is_keyword kw" "ws' \<noteq> []" "all_space ws'" "is_upper c"
    unfolding declaration_line_def by blast
  have "no_space_head (c # cs @ rest)" using h(6) by (simp add: no_space_head_def upper_no_space)
  from PATTERN_match_parse[OF h(1-5) this] h(6) show ?thesis
    unfolding l by (simp add: match_name_def)
qed

lemma PATTERN_match_lowercase:
  assumes "lowercase_line line"
  shows "PATTERN_match line = None"
proof -
  from assms obtain ws vis kw ws' c rest where
    l: "line = ws @ vis @ kw @ ws' @ c # rest" and
    h: "all_space ws" "is_visibility vis" "is_keyword kw" "ws' \<noteq> []" "all_space ws'" "is_lower c"
    unfolding lowercase_line_def by blast
  have "no_space_head (c # rest)" using h(6) by (simp add: no_space_head_def lower_no_space)
  from PATTERN_match_parse[OF h(1-5) this] h(6) show ?thesis
    unfolding l by (simp add: match_name_def lower_not_upper)
qed

subsection \<open>Matched lines have the described form\<close>

lemma match_spaces1_sound:
  "match_spaces1 s = Some r \<Longrightarrow> \<exists>ws. s = ws @ r \<and> ws \<noteq> [] \<and> all_space ws"
proof -
  assume a: "match_spaces1 s = Some r"
  then obtain c t where s: "s = c # t" "isspace c" "r = dropWhile isspace t"
    by (auto simp: match_spaces1_def split: list.splits if_splits)
  have "s = (c # takeWhile isspace t) @ r" using s by simp
  moreover have "all_space (c # takeWhile isspace t)"
    using s(2) by (auto simp: all_space_def list_all_iff dest: set_takeWhileD)
  ultimately show ?thesis by blast
qed

lemma match_scope_sound: "\<exists>scope. s = scope @ match_scope s \<and> is_scope scope"
proof (cases s)
  case Nil
  then show ?thesis by (simp add: match_scope_def is_scope_def)
next
  case (Cons c t)
  let ?dw = "dropWhile (\<lambda>x. x \<noteq> CHR '')'') t"
  show ?thesis
  proof (cases "c = CHR ''(''")
    case False
    then have "match_scope s = s" using Cons by (simp add: match_scope_def)
    then show ?thesis by (simp add: is_scope_def)
  next
    case paren: True
    show ?thesis
    proof (cases ?dw)
      case Nil
      then have "match_scope s = s"
        using Cons paren by (simp add: match_scope_def del: dropWhile_eq_Nil_conv)
      then show ?thesis by (simp add: is_scope_def)
    next
      case (Cons d u)
      then have d: "d = CHR '')''" using hd_dropWhile[of "\<lambda>x. x \<noteq> CHR '')''" t] by auto
      let ?inner = "takeWhile (\<lambda>x. x \<noteq> CHR '')'') t"
      have "t = ?inner @ CHR '')'' # u"
        using Cons d takeWhile_dropWhile_id[of "\<lambda>x. x \<noteq> CHR '')''" t] by simp
      then have "s = (''('' @ ?inner @ '')'') @ u" using \<open>s = c # t\<close> paren by simp
      moreover have "CHR '')'' \<notin> set ?inner" by (auto dest: set_takeWhileD)
      moreover have "match_scope s = u" using \<open>s = c # t\<close> paren Cons by (simp add: match_scope_def)
      ultimately show ?thesis unfolding is_scope_def by metis
    qed
  qed
qed

lemma startswith_split: "startswith s p \<Longrightarrow> s = p @ drop (length p) s"
  unfolding startswith_def by (metis append_take_drop_id)

lemma startswith_pub: "startswith s ''pub'' \<Longrightarrow> s = ''pub'' @ drop 3 s"
proof -
  assume a: "startswith s ''pub''"
  have "length ''pub'' = 3" by simp
  with startswith_split[OF a] show ?thesis by metis
qed

lemma startswith_struct: "startswith s ''struct'' \<Longrightarrow> s = ''struct'' @ drop 6 s"
proof -
  assume a: "startswith s ''struct''"
  have "length ''struct'' = 6" by simp
  with startswith_split[OF a] show ?thesis by metis
qed

lemma startswith_enum: "startswith s ''enum'' \<Longrightarrow> s = ''enum'' @ drop 4 s"
proof -
  assume a: "startswith s ''enum''"
  have "length ''enum'' = 4" by simp
  with startswith_split[OF a] show ?thesis by metis
qed

lemma match_vis_sound: "\<exists>vis. s = vis @ match_vis s \<and> is_visibility vis"
proof (cases "startswith s ''pub'' \<and> match_spaces1 (match_scope (drop 3 s)) \<noteq> None")
  case False
  then have "match_vis s = s" by (auto simp: match_vis_def)
  then show ?thesis by (simp add: is_visibility_def)
next
  case True
  then obtain r where r: "match_spaces1 (match_scope (drop 3 s)) = Some r" by auto
  then have mv: "match_vis s = r" using True by (simp add: match_vis_def)
  from match_spaces1_sound[OF r] obtain ws where
    ws: "match_scope (drop 3 s) = ws @ r" "ws \<noteq> []" "all_space ws" by blast
  from match_scope_sound[of "drop 3 s"] obtain scope where
    sc: "drop 3 s = scope @ match_scope (drop 3 s)" "is_scope scope" by blast
  have "s = ''pub'' @ drop 3 s" using True startswith_pub by blast
  then have "s = (''pub'' @ scope @ ws) @ r" using sc(1) ws(1) by simp
  moreover have "is_visibility (''pub'' @ scope @ ws)"
    unfolding is_visibility_def using ws(2,3) sc(2)
    by (intro disjI2 exI[of _ scope] exI[of _ ws]) simp
  ultimately show ?thesis using mv by metis
qed

lemma match_kind_sound: "match_kind s = Some (kw, r) \<Longrightarrow> s = kw @ r \<and> is_keyword kw"
  using startswith_struct[of s] startswith_enum[of s]
  by (auto simp: match_kind_def is_keyword_def split: if_splits)

lemma match_name_sound:
  "match_name s = Some name \<Longrightarrow>
     \<exists>c cs rest. s = c # cs @ rest \<and> name = c # cs \<and> is_upper c \<and> list_all is_word cs"
proof -
  assume "match_name s = Some name"
  then obtain c t where s: "s = c # t" "is_upper c" "name = c # takeWhile is_word t"
    by (auto simp: match_name_def split: list.splits if_splits)
  have "s = c # takeWhile is_word t @ dropWhile is_word t" using s by simp
  moreover have "list_all is_word (takeWhile is_word t)"
    by (auto simp: list_all_iff dest: set_takeWhileD)
  ultimately show ?thesis using s by blast
qed

lemma PATTERN_match_sound:
  assumes "PATTERN_match line = Some (kind, name)"
  shows "declaration_line line \<and> is_keyword kind \<and> name \<noteq> [] \<and> is_upper (hd name) \<and> list_all is_word (tl name)"
proof -
  let ?s0 = "dropWhile isspace line"
  from assms obtain s1 s2 where
    k: "match_kind (match_vis ?s0) = Some (kind, s1)" and
    sp: "match_spaces1 s1 = Some s2" and
    n: "match_name s2 = Some name"
    by (auto simp: PATTERN_match_def split: option.splits)
  have l0: "line = takeWhile isspace line @ ?s0" by simp
  have a0: "all_space (takeWhile isspace line)"
    by (auto simp: all_space_def list_all_iff dest: set_takeWhileD)
  from match_vis_sound[of ?s0] obtain vis where
    v: "?s0 = vis @ match_vis ?s0" "is_visibility vis" by blast
  from match_kind_sound[OF k] have k': "match_vis ?s0 = kind @ s1" "is_keyword kind" by auto
  from match_spaces1_sound[OF sp] obtain ws' where
    w: "s1 = ws' @ s2" "ws' \<noteq> []" "all_space ws'" by blast
  from match_name_sound[OF n] obtain c cs rest where
    nm: "s2 = c # cs @ rest" "name = c # cs" "is_upper c" "list_all is_word cs" by blast
  have "line = takeWhile isspace line @ vis @ kind @ ws' @ c # cs @ rest"
    using l0 v(1) k'(1) w(1) nm(1) by metis
  then have "declaration_line line"
    unfolding declaration_line_def using a0 v(2) k'(2) w(2,3) nm(3,4) by blast
  then show ?thesis using k'(2) nm by simp
qed

lemma declaration_line_iff: "declaration_line line \<longleftrightarrow> PATTERN_match line \<noteq> None"
  using PATTERN_match_complete PATTERN_match_sound by (cases "PATTERN_match line") fastforce+

lemma PATTERN_match_no_comment:
  assumes "PATTERN_match line \<noteq> None"
  shows "\<not> startswith (lstrip line) ''//'' \<and> \<not> startswith (lstrip line) ''/*''"
proof -
  from assms obtain kind s1 where k: "match_kind (match_vis (lstrip line)) = Some (kind, s1)"
    by (auto simp: PATTERN_match_def lstrip_def split: option.splits)
  from match_kind_sound[OF k] have k': "match_vis (lstrip line) = kind @ s1" "is_keyword kind" by auto
  from match_vis_sound[of "lstrip line"] obtain vis where
    v: "lstrip line = vis @ match_vis (lstrip line)" "is_visibility vis" by blast
  then have "lstrip line = vis @ kind @ s1" using k' by simp
  then show ?thesis using v(2) k'(2)
    by (auto simp: is_visibility_def is_keyword_def startswith_def)
qed

subsection \<open>The matcher decides the pattern\<close>

lemma lang_scope_re: "s \<in> lang scope_re \<longleftrightarrow> is_scope s"
  by (auto simp: scope_re_def is_scope_def list_all_iff)

lemma lang_vis_re: "v \<in> lang vis_re \<longleftrightarrow> is_visibility v"
proof
  assume "v \<in> lang vis_re"
  then consider "v = []" | scope ws where "v = ''pub'' @ scope @ ws" "scope \<in> lang scope_re"
      "ws \<noteq> []" "list_all isspace ws"
    by (auto simp: vis_re_def)
  then show "is_visibility v"
  proof cases
    case 1
    then show ?thesis by (simp add: is_visibility_def)
  next
    case 2
    then show ?thesis
      unfolding is_visibility_def all_space_def lang_scope_re
      by (intro disjI2 exI[of _ scope] exI[of _ ws]) simp
  qed
next
  assume "is_visibility v"
  then consider "v = []" | scope ws where "v = ''pub'' @ scope @ ws" "is_scope scope"
      "ws \<noteq> []" "all_space ws"
    unfolding is_visibility_def by blast
  then show "v \<in> lang vis_re"
  proof cases
    case 1
    then show ?thesis by (simp add: vis_re_def)
  next
    case 2
    have "''pub'' @ scope @ ws \<in> lang (Seq (Lit ''pub'') (Seq scope_re (Many1 isspace)))"
      unfolding lang.simps using 2(2-4) lang_scope_re[of scope] all_space_def by blast
    then show ?thesis using 2(1) by (simp add: vis_re_def)
  qed
qed

lemma lang_SeqI: "u \<in> lang a \<Longrightarrow> v \<in> lang b \<Longrightarrow> u @ v \<in> lang (Seq a b)"
  by auto

lemma lang_SeqE:
  assumes "w \<in> lang (Seq a b)"
  obtains u v where "w = u @ v" "u \<in> lang a" "v \<in> lang b"
  using assms by auto

lemma lang_PATTERN:
  "p \<in> lang PATTERN \<longleftrightarrow>
     (\<exists>ws vis kw ws' c cs.
        p = ws @ vis @ kw @ ws' @ c # cs \<and> all_space ws \<and> is_visibility vis \<and>
        is_keyword kw \<and> ws' \<noteq> [] \<and> all_space ws' \<and> is_upper c \<and> list_all is_word cs)"
proof
  assume "p \<in> lang PATTERN"
  then obtain ws r1 where 1: "p = ws @ r1" "ws \<in> lang (Many isspace)"
    and r1: "r1 \<in> lang (Seq vis_re (Seq (Alt (Lit ''struct'') (Lit ''enum''))
             (Seq (Many1 isspace) (Seq (Atom is_upper) (Many is_word)))))"
    unfolding PATTERN_def by (rule lang_SeqE)
  from r1 obtain vis r2 where 2: "r1 = vis @ r2" "vis \<in> lang vis_re"
    and r2: "r2 \<in> lang (Seq (Alt (Lit ''struct'') (Lit ''enum''))
             (Seq (Many1 isspace) (Seq (Atom is_upper) (Many is_word))))"
    by (rule lang_SeqE)
  from r2 obtain kw r3 where 3: "r2 = kw @ r3" "kw \<in> lang (Alt (Lit ''struct'') (Lit ''enum''))"
    and r3: "r3 \<in> lang (Seq (Many1 isspace) (Seq (Atom is_upper) (Many is_word)))"
    by (rule lang_SeqE)
  from r3 obtain ws' r4 where 4: "r3 = ws' @ r4" "ws' \<in> lang (Many1 isspace)"
    and r4: "r4 \<in> lang (Seq (Atom is_upper) (Many is_word))"
    by (rule lang_SeqE)
  from r4 obtain u cs where 5: "r4 = u @ cs" "u \<in> lang (Atom is_upper)" "cs \<in> lang (Many is_word)"
    by (rule lang_SeqE)
  from 5(2) obtain c where c: "u = [c]" "is_upper c" by auto
  have "p = ws @ vis @ kw @ ws' @ c # cs" using 1(1) 2(1) 3(1) 4(1) 5(1) c(1) by simp
  moreover have "all_space ws" using 1(2) by (simp add: all_space_def)
  moreover have "is_visibility vis" using 2(2) by (simp add: lang_vis_re)
  moreover have "is_keyword kw" using 3(2) by (auto simp: is_keyword_def)
  moreover have "ws' \<noteq> []" "all_space ws'" using 4(2) by (simp_all add: all_space_def)
  moreover have "list_all is_word cs" using 5(3) by simp
  ultimately show "\<exists>ws vis kw ws' c cs.
        p = ws @ vis @ kw @ ws' @ c # cs \<and> all_space ws \<and> is_visibility vis \<and>
        is_keyword kw \<and> ws' \<noteq> [] \<and> all_space ws' \<and> is_upper c \<and> list_all is_word cs"
    using c(2) by blast
next
  assume "\<exists>ws vis kw ws' c cs.
        p = ws @ vis @ kw @ ws' @ c # cs \<and> all_space ws \<and> is_visibility vis \<and>
        is_keyword kw \<and> ws' \<noteq> [] \<and> all_space ws' \<and> is_upper c \<and> list_all is_word cs"
  then obtain ws vis kw ws' c cs where
    p: "p = ws @ vis @ kw @ ws' @ c # cs" and g: "all_space ws" "is_visibility vis"
    "is_keyword kw" "ws' \<noteq> []" "all_space ws'" "is_upper c" "list_all is_word cs"
    by blast
  have "[c] \<in> lang (Atom is_upper)" using g(6) by simp
  moreover have "cs \<in> lang (Many is_word)" using g(7) by simp
  ultimately have 1: "[c] @ cs \<in> lang (Seq (Atom is_upper) (Many is_word))"
    by (rule lang_SeqI)
  have "ws' \<in> lang (Many1 isspace)" using g(4,5) by (simp add: all_space_def)
  from lang_SeqI[OF this 1]
  have 2: "ws' @ [c] @ cs \<in> lang (Seq (Many1 isspace) (Seq (Atom is_upper) (Many is_word)))" .
  have "kw \<in> lang (Alt (Lit ''struct'') (Lit ''enum''))" using g(3) by (auto simp: is_keyword_def)
  from lang_SeqI[OF this 2]
  have 3: "kw @ ws' @ [c] @ cs \<in> lang (Seq (Alt (Lit ''struct'') (Lit ''enum''))
             (Seq (Many1 isspace) (Seq (Atom is_upper) (Many is_word))))" .
  have "vis \<in> lang vis_re" using g(2) by (simp add: lang_vis_re)
  from lang_SeqI[OF this 3]
  have 4: "vis @ kw @ ws' @ [c] @ cs \<in> lang (Seq vis_re (Seq (Alt (Lit ''struct'') (Lit ''enum''))
             (Seq (Many1 isspace) (Seq (Atom is_upper) (Many is_word)))))" .
  have "ws \<in> lang (Many isspace)" using g(1) by (simp add: all_space_def)
  from lang_SeqI[OF this 4]
  have "ws @ vis @ kw @ ws' @ [c] @ cs \<in> lang PATTERN" unfolding PATTERN_def .
  then show "p \<in> lang PATTERN" using p by simp
qed

lemma declaration_line_lang:
  "declaration_line line \<longleftrightarrow> (\<exists>p rest. line = p @ rest \<and> p \<in> lang PATTERN)"
proof
  assume "declaration_line line"
  then obtain ws vis kw ws' c cs rest where
    l: "line = ws @ vis @ kw @ ws' @ c # cs @ rest" and
    h: "all_space ws" "is_visibility vis" "is_keyword kw" "ws' \<noteq> []" "all_space ws'"
       "is_upper c" "list_all is_word cs"
    unfolding declaration_line_def by blast
  have "ws @ vis @ kw @ ws' @ c # cs \<in> lang PATTERN"
    unfolding lang_PATTERN using h by blast
  moreover have "line = (ws @ vis @ kw @ ws' @ c # cs) @ rest" using l by simp
  ultimately show "\<exists>p rest. line = p @ rest \<and> p \<in> lang PATTERN" by blast
next
  assume "\<exists>p rest. line = p @ rest \<and> p \<in> lang PATTERN"
  then obtain p rest where l: "line = p @ rest" and p: "p \<in> lang PATTERN" by blast
  from p obtain ws vis kw ws' c cs where
    "p = ws @ vis @ kw @ ws' @ c # cs" "all_space ws" "is_visibility vis" "is_keyword kw"
    "ws' \<noteq> []" "all_space ws'" "is_upper c" "list_all is_word cs"
    unfolding lang_PATTERN by blast
  then show "declaration_line line"
    unfolding declaration_line_def l
    by (intro exI[of _ ws] exI[of _ vis] exI[of _ kw] exI[of _ ws'] exI[of _ c] exI[of _ cs]
        exI[of _ rest]) simp
qed

lemma PATTERN_match_lang:
  "PATTERN_match line \<noteq> None \<longleftrightarrow> (\<exists>p rest. line = p @ rest \<and> p \<in> lang PATTERN)"
  using declaration_line_iff declaration_line_lang by simp

lemma PATTERN_match_groups:
  assumes "all_space ws" "is_visibility vis" "is_keyword kw" "ws' \<noteq> []" "all_space ws'"
    "is_upper c" "list_all is_word cs"
  shows "PATTERN_match (ws @ vis @ kw @ ws' @ c # cs @ rest) =
           Some (kw, c # cs @ takeWhile is_word rest)"
proof -
  have "no_space_head (c # cs @ rest)" using assms(6) by (simp add: no_space_head_def upper_no_space)
  from PATTERN_match_parse[OF assms(1-5) this]
  have "PATTERN_match (ws @ vis @ kw @ ws' @ c # cs @ rest) =
      Some (kw, c # takeWhile is_word (cs @ rest))"
    using assms(6) by (simp add: match_name_def)
  moreover have "takeWhile is_word (cs @ rest) = cs @ takeWhile is_word rest"
    using assms(7) by (simp add: takeWhile_append2 list_all_iff)
  ultimately show ?thesis by simp
qed

subsection \<open>Records and lines\<close>

lemmas scan_eval_defs =
  scan_line_def lstrip_def startswith_def PATTERN_match_def match_kind_def match_vis_def
  match_scope_def match_spaces1_def match_name_def isspace_def is_upper_def is_lower_def
  is_digit_def is_word_def

lemma scan_line_cases:
  "scan_line p (types, seen) (idx, line) =
     (if startswith (lstrip line) ''//'' \<or> startswith (lstrip line) ''/*'' then (types, seen)
      else case PATTERN_match line of
             None \<Rightarrow> (types, seen)
           | Some (kind, name) \<Rightarrow>
               (types @ [(name, kind, p, idx)], setdefault_append seen name (p, idx)))"
  by (simp add: scan_line_def)

text \<open>
  Claim C1. The loop body appends a record for a line exactly when the line has the form
  the specification describes: optional whitespace, an optional visibility qualifier
  followed by whitespace, \<^verbatim>\<open>struct\<close> or \<^verbatim>\<open>enum\<close>, whitespace, and an identifier that
  starts with an uppercase ASCII letter and continues with letters, digits or underscores.
  The record then holds one of the two keywords and a name of that shape. Any other line
  leaves the state as it was; in particular a line whose identifier starts with a
  lowercase letter yields no record.
\<close>

theorem scanner_matches_declaration_lines:
  "((\<exists>kind c cs. scan_line p (types, seen) (idx, line) =
        (types @ [(c # cs, kind, p, idx)], setdefault_append seen (c # cs) (p, idx))
        \<and> is_keyword kind \<and> is_upper c \<and> list_all is_word cs)
      \<longleftrightarrow> declaration_line line)
   \<and> (\<not> declaration_line line \<longrightarrow> scan_line p (types, seen) (idx, line) = (types, seen))
   \<and> (lowercase_line line \<longrightarrow> scan_line p (types, seen) (idx, line) = (types, seen))"
proof (cases "PATTERN_match line")
  case None
  then have eq: "scan_line p (types, seen) (idx, line) = (types, seen)"
    by (simp add: scan_line_cases)
  have "\<not> declaration_line line" using None by (simp add: declaration_line_iff)
  then show ?thesis using eq by simp
next
  case (Some kn)
  obtain kind name where kn: "kn = (kind, name)" by (cases kn)
  from PATTERN_match_sound[of line kind name] Some kn
  have d: "declaration_line line" and k: "is_keyword kind"
    and n: "name \<noteq> []" "is_upper (hd name)" "list_all is_word (tl name)"
    by simp_all
  from n(1) obtain c cs where name: "name = c # cs" by (cases name) auto
  have nc: "\<not> startswith (lstrip line) ''//'' \<and> \<not> startswith (lstrip line) ''/*''"
    using Some PATTERN_match_no_comment by simp
  have eq: "scan_line p (types, seen) (idx, line) =
      (types @ [(c # cs, kind, p, idx)], setdefault_append seen (c # cs) (p, idx))"
    using Some kn nc name by (simp add: scan_line_cases)
  have "\<exists>kind c cs. scan_line p (types, seen) (idx, line) =
        (types @ [(c # cs, kind, p, idx)], setdefault_append seen (c # cs) (p, idx))
        \<and> is_keyword kind \<and> is_upper c \<and> list_all is_word cs"
    using eq k n(2,3) name by auto
  moreover have "\<not> lowercase_line line" using Some PATTERN_match_lowercase by fastforce
  ultimately show ?thesis using d by simp
qed

lemma lowercase_line_example: "lowercase_line ''struct foo''"
  unfolding lowercase_line_def
  by (intro exI[of _ "[]"] exI[of _ "''struct''"] exI[of _ "'' ''"] exI[of _ "CHR ''f''"] exI[of _ "''oo''"])
     (simp add: all_space_def is_visibility_def is_keyword_def isspace_def is_lower_def)

theorem scanner_matches_declaration_lines_witness:
  "declaration_line ''  pub(crate) struct Foo {''
   \<and> \<not> declaration_line ''struct foo''
   \<and> lowercase_line ''struct foo''
   \<and> scan_line [''a.rs''] ([], []) (1, ''struct foo'') = ([], [])"
proof -
  have a: "scan_line [''a.rs''] ([], []) (1, ''  pub(crate) struct Foo {'') =
      ([] @ [(''Foo'', ''struct'', [''a.rs''], 1)], setdefault_append [] ''Foo'' ([''a.rs''], 1))
      \<and> is_keyword ''struct'' \<and> is_upper CHR ''F'' \<and> list_all is_word ''oo''"
    by (simp add: scan_eval_defs is_keyword_def)
  have b: "scan_line [''a.rs''] ([], []) (1, ''struct foo'') = ([], [])"
    by (simp add: scan_eval_defs)
  from a scanner_matches_declaration_lines[of "[''a.rs'']" "[]" "[]" 1 "''  pub(crate) struct Foo {''"]
  have 1: "declaration_line ''  pub(crate) struct Foo {''" by blast
  from b scanner_matches_declaration_lines[of "[''a.rs'']" "[]" "[]" 1 "''struct foo''"]
  have 2: "\<not> declaration_line ''struct foo''" by auto
  show ?thesis using 1 2 b lowercase_line_example by simp
qed

lemma lstrip_spaces: "all_space ws \<Longrightarrow> no_space_head s \<Longrightarrow> lstrip (ws @ s) = s"
  by (simp add: lstrip_def dropWhile_spaces)

text \<open>
  Claim C4. A line whose first characters after the leading whitespace are \<^verbatim>\<open>//\<close> or
  \<^verbatim>\<open>/*\<close> yields no record, whatever follows the marker on that line; the line
  \<^verbatim>\<open>struct Bar // trailing comment\<close> yields exactly one record, named \<^verbatim>\<open>Bar\<close>.
\<close>

theorem comment_lines_yield_no_record:
  "(startswith (lstrip line) ''//'' \<or> startswith (lstrip line) ''/*''
      \<longrightarrow> scan_line p st (idx, line) = st)
   \<and> (all_space ws \<longrightarrow> scan_line p st (idx, ws @ ''//'' @ rest) = st
                      \<and> scan_line p st (idx, ws @ ''/*'' @ rest) = st)
   \<and> scan_line p (types, seen) (idx, ''struct Bar // trailing comment'') =
       (types @ [(''Bar'', ''struct'', p, idx)], setdefault_append seen ''Bar'' (p, idx))"
proof -
  obtain types' seen' where st: "st = (types', seen')" by (cases st)
  have 1: "startswith (lstrip line) ''//'' \<or> startswith (lstrip line) ''/*''
      \<longrightarrow> scan_line p st (idx, line) = st"
    unfolding st by (simp add: scan_line_cases)
  have 2: "scan_line p st (idx, ws @ ''//'' @ rest) = st
         \<and> scan_line p st (idx, ws @ ''/*'' @ rest) = st" if "all_space ws"
  proof -
    have "lstrip (ws @ ''//'' @ rest) = ''//'' @ rest"
      using that by (intro lstrip_spaces) (simp_all add: no_space_head_def isspace_def)
    moreover have "lstrip (ws @ ''/*'' @ rest) = ''/*'' @ rest"
      using that by (intro lstrip_spaces) (simp_all add: no_space_head_def isspace_def)
    ultimately show ?thesis unfolding st by (simp add: scan_line_cases startswith_def)
  qed
  have 3: "scan_line p (types, seen) (idx, ''struct Bar // trailing comment'') =
       (types @ [(''Bar'', ''struct'', p, idx)], setdefault_append seen ''Bar'' (p, idx))"
    by (simp add: scan_eval_defs)
  show ?thesis using 1 2 3 by blast
qed

theorem comment_lines_yield_no_record_witness:
  "startswith (lstrip ''  // struct Foo'') ''//''
   \<and> scan_line [''a.rs''] ([], []) (7, ''  // struct Foo'') = ([], [])
   \<and> all_space [CHR 0x09]
   \<and> scan_line [''a.rs''] ([], []) (7, [CHR 0x09] @ ''/*'' @ '' enum Foo */'') = ([], [])"
proof -
  have h: "startswith (lstrip ''  // struct Foo'') ''//''"
    by (simp add: lstrip_def startswith_def isspace_def)
  have w: "all_space [CHR 0x09]" by (simp add: all_space_def isspace_def)
  from comment_lines_yield_no_record[of "''  // struct Foo''" "[''a.rs'']" "([], [])" 7 "[CHR 0x09]" "'' enum Foo */''"]
    h w show ?thesis by blast
qed

section \<open>The scan as a whole\<close>

subsection \<open>The loops in closed form\<close>

lemma scan_line_entry:
  "scan_line p (types, seen) il =
     (case line_entry p il of None \<Rightarrow> (types, seen)
      | Some e \<Rightarrow> (types @ [e], index_add seen e))"
  by (cases il) (auto simp: scan_line_def line_entry_def index_add_def split: option.splits)

lemma foldl_scan_line:
  "foldl (scan_line p) (types, seen) ils =
     (types @ List.map_filter (line_entry p) ils,
      foldl index_add seen (List.map_filter (line_entry p) ils))"
proof (induction ils arbitrary: types seen)
  case Nil
  then show ?case by (simp add: map_filter_simps)
next
  case (Cons il ils)
  show ?case
    by (cases "line_entry p il") (simp_all add: scan_line_entry Cons.IH map_filter_simps)
qed

lemma scan_text_entries:
  "scan_text p text (types, seen) =
     (types @ text_entries p text, foldl index_add seen (text_entries p text))"
  by (simp add: scan_text_def text_entries_def foldl_scan_line)

lemma file_entries_simps:
  "should_skip p \<Longrightarrow> file_entries rd p = []"
  "rd p = Inl e \<Longrightarrow> file_entries rd p = []"
  "\<not> should_skip p \<Longrightarrow> rd p = Inr text \<Longrightarrow> file_entries rd p = text_entries p text"
  by (simp_all add: file_entries_def)

lemma scan_files_entries:
  "scan_files rd ps (types, seen) =
     (case first_error rd ps of
        Some e \<Rightarrow> Inl e
      | None \<Rightarrow> Inr (types @ concat (map (file_entries rd) ps),
                     foldl index_add seen (concat (map (file_entries rd) ps))))"
proof (induction ps arbitrary: types seen)
  case Nil
  then show ?case by simp
next
  case (Cons p ps)
  show ?case
  proof (cases "should_skip p")
    case True
    then show ?thesis using Cons.IH by (simp add: file_entries_simps split: option.splits)
  next
    case False
    show ?thesis
    proof (cases "rd p")
      case (Inl e)
      then show ?thesis using False Cons.IH by (simp add: file_entries_simps split: option.splits)
    next
      case (Inr body)
      then show ?thesis
        using False Cons.IH[of "types @ text_entries p body"]
        by (simp add: file_entries_simps scan_text_entries split: option.splits)
    qed
  qed
qed

lemma scan_files_walk:
  "scan_files rd (sort (rglob_rs ROOT entries)) ([], []) =
     (case first_error rd (sort (rglob_rs ROOT entries)) of
        Some e \<Rightarrow> Inl e
      | None \<Rightarrow> Inr (scanned ROOT rd entries, foldl index_add [] (scanned ROOT rd entries)))"
  by (simp add: scan_files_entries scanned_def split: option.splits)

lemma scan_result:
  assumes "scan_files rd (sort (rglob_rs ROOT entries)) ([], []) = Inr (types, seen)"
  shows "first_error rd (sort (rglob_rs ROOT entries)) = None"
    and "types = scanned ROOT rd entries"
    and "seen = foldl index_add [] types"
  using assms by (auto simp: scan_files_walk split: option.splits)

lemma line_entry_path: "line_entry p il = Some e \<Longrightarrow> entry_path e = p"
  by (cases il) (auto simp: line_entry_def entry_path_def entry_loc_def split: if_splits)

lemma text_entries_path: "e \<in> set (text_entries p body) \<Longrightarrow> entry_path e = p"
  by (auto simp: text_entries_def List.map_filter_def line_entry_path)

lemma file_entries_path: "e \<in> set (file_entries rd p) \<Longrightarrow> entry_path e = p"
  by (auto simp: file_entries_def text_entries_path split: if_splits sum.splits)

lemma file_entries_not_skipped: "e \<in> set (file_entries rd p) \<Longrightarrow> \<not> should_skip p"
  by (auto simp: file_entries_def split: if_splits)

lemma under_append [simp]: "under ROOT (ROOT @ rel)"
  by (simp add: under_def)

lemma rglob_rs_under: "p \<in> set (rglob_rs ROOT entries) \<Longrightarrow> under ROOT p"
  by (auto simp: rglob_rs_def)

lemma scanned_path:
  "e \<in> set (scanned ROOT rd entries) \<Longrightarrow>
     entry_path e \<in> set (rglob_rs ROOT entries) \<and> \<not> should_skip (entry_path e)"
  by (auto simp: scanned_def dest: file_entries_path file_entries_not_skipped)

lemma scanned_under: "e \<in> set (scanned ROOT rd entries) \<Longrightarrow> under ROOT (entry_path e)"
  using scanned_path rglob_rs_under by blast

subsection \<open>The order of the scan\<close>

lemma line_entry_loc: "line_entry p il = Some e \<Longrightarrow> entry_loc e = (p, fst il)"
  by (cases il) (auto simp: line_entry_def entry_loc_def split: if_splits)

lemma enumerate_from_lower: "il \<in> set (enumerate_from n xs) \<Longrightarrow> n \<le> fst il"
  by (induction xs arbitrary: n) force+

lemma enumerate_from_sorted: "sorted_wrt (<) (map fst (enumerate_from n xs))"
proof (induction xs arbitrary: n)
  case Nil
  then show ?case by simp
next
  case (Cons x xs)
  have "\<forall>il\<in>set (enumerate_from (n + 1) xs). n < fst il"
    using enumerate_from_lower[of _ "n + 1" xs] by force
  then show ?case using Cons by simp
qed

lemma map_filter_Cons:
  "List.map_filter f (x # xs) =
     (case f x of None \<Rightarrow> List.map_filter f xs | Some y \<Rightarrow> y # List.map_filter f xs)"
  by (simp add: map_filter_simps)

lemma line_entries_sorted:
  "sorted_wrt (<) (map fst ils) \<Longrightarrow>
     sorted_wrt (<) (map entry_loc (List.map_filter (line_entry p) ils))"
proof (induction ils)
  case Nil
  then show ?case by (simp add: map_filter_simps)
next
  case (Cons il ils)
  show ?case
  proof (cases "line_entry p il")
    case None
    then show ?thesis using Cons by (simp add: map_filter_Cons)
  next
    case (Some e)
    have "entry_loc e < entry_loc e'" if "e' \<in> set (List.map_filter (line_entry p) ils)" for e'
    proof -
      from that obtain il' where il': "il' \<in> set ils" "line_entry p il' = Some e'"
        by (auto simp: List.map_filter_def)
      then have "fst il < fst il'" using Cons.prems by auto
      then show ?thesis using line_entry_loc[OF Some] line_entry_loc[OF il'(2)] by simp
    qed
    then show ?thesis using Cons Some by (simp add: map_filter_Cons)
  qed
qed

lemma text_entries_sorted: "sorted_wrt (<) (map entry_loc (text_entries p body))"
  unfolding text_entries_def by (rule line_entries_sorted) (rule enumerate_from_sorted)

lemma file_entries_sorted: "sorted_wrt (<) (map entry_loc (file_entries rd p))"
  by (simp add: file_entries_def text_entries_sorted split: sum.splits)

lemma files_entries_sorted:
  "sorted_wrt (<) ps \<Longrightarrow> sorted_wrt (<) (map entry_loc (concat (map (file_entries rd) ps)))"
proof (induction ps)
  case Nil
  then show ?case by simp
next
  case (Cons p ps)
  have "entry_loc e < entry_loc e'"
    if "e \<in> set (file_entries rd p)" "q \<in> set ps" "e' \<in> set (file_entries rd q)" for e e' q
  proof -
    have "fst (entry_loc e) = p" "fst (entry_loc e') = q"
      using that file_entries_path by (auto simp: entry_path_def)
    moreover have "p < q" using Cons.prems that(2) by simp
    ultimately show ?thesis by (cases "entry_loc e"; cases "entry_loc e'") simp
  qed
  then show ?case
    using Cons by (auto simp: sorted_wrt_append file_entries_sorted)
qed

lemma distinct_rglob_rs: "distinct entries \<Longrightarrow> distinct (rglob_rs ROOT entries)"
  by (simp add: rglob_rs_def distinct_map inj_on_def)

lemma scanned_sorted:
  "distinct entries \<Longrightarrow> sorted_wrt (<) (map entry_loc (scanned ROOT rd entries))"
  unfolding scanned_def
  by (intro files_entries_sorted) (simp add: strict_sorted_iff distinct_rglob_rs)

lemma occurrences_sorted:
  "sorted_wrt (<) (map entry_loc types) \<Longrightarrow> sorted_wrt (<) (occurrences types n)"
  unfolding occurrences_def by (induction types) auto

subsection \<open>The index of names\<close>

lemma set_first_seen [simp]: "set (first_seen xs) = set xs"
  by (induction xs) auto

lemma distinct_first_seen [simp]: "distinct (first_seen xs)"
  by (induction xs) auto

lemma first_seen_snoc:
  "first_seen (xs @ [x]) = (if x \<in> set xs then first_seen xs else first_seen xs @ [x])"
proof (induction xs)
  case Nil
  then show ?case by simp
next
  case (Cons y ys)
  then show ?case by auto
qed

lemma setdefault_append_map:
  "distinct ns \<Longrightarrow>
   setdefault_append (map (\<lambda>n. (n, f n)) ns) k v =
     (if k \<in> set ns then map (\<lambda>n. (n, if n = k then f n @ [v] else f n)) ns
      else map (\<lambda>n. (n, f n)) ns @ [(k, [v])])"
  by (induction ns) auto

lemma occurrences_snoc:
  "occurrences (es @ [e]) n =
     (if fst e = n then occurrences es n @ [entry_loc e] else occurrences es n)"
  by (simp add: occurrences_def)

lemma occurrences_fresh: "n \<notin> fst ` set es \<Longrightarrow> occurrences es n = []"
  by (auto simp: occurrences_def filter_empty_conv)

lemma index_add_entries:
  "foldl index_add [] es = map (\<lambda>n. (n, occurrences es n)) (first_seen (map fst es))"
proof (induction es rule: rev_induct)
  case Nil
  then show ?case by simp
next
  case (snoc e es)
  obtain name kind p idx where e: "e = (name, kind, p, idx)" by (cases e)
  have step: "index_add d e = setdefault_append d name (p, idx)" for d
    by (simp add: index_add_def e)
  have "foldl index_add [] (es @ [e]) = index_add (foldl index_add [] es) e" by simp
  also have "\<dots> =
      setdefault_append (map (\<lambda>n. (n, occurrences es n)) (first_seen (map fst es))) name (p, idx)"
    by (simp only: snoc.IH step)
  also have "\<dots> = map (\<lambda>n. (n, occurrences (es @ [e]) n)) (first_seen (map fst (es @ [e])))"
  proof (cases "name \<in> fst ` set es")
    case True
    then show ?thesis
      by (simp add: setdefault_append_map first_seen_snoc occurrences_snoc e entry_loc_def)
  next
    case False
    then show ?thesis
      by (auto simp add: setdefault_append_map first_seen_snoc occurrences_snoc e entry_loc_def
          occurrences_fresh)
  qed
  finally show ?case .
qed

lemma filter_index:
  "filter (\<lambda>(name, locs). length locs > 1) (map (\<lambda>n. (n, occurrences types n)) ns) =
     map (\<lambda>n. (n, occurrences types n)) (filter (\<lambda>n. 1 < length (occurrences types n)) ns)"
  by (induction ns) auto

lemma duplicates_of_index:
  "filter (\<lambda>(name, locs). length locs > 1) (foldl index_add [] types) =
     map (\<lambda>n. (n, occurrences types n)) (duplicated_names types)"
  unfolding index_add_entries duplicated_names_def by (rule filter_index)

lemma length_occurrences: "length (occurrences types n) = count_list (map fst types) n"
  by (induction types) (auto simp: occurrences_def)

lemma distinct_count_list: "distinct xs \<longleftrightarrow> (\<forall>x\<in>set xs. count_list xs x \<le> 1)"
proof (induction xs)
  case Nil
  then show ?case by simp
next
  case (Cons a xs)
  show ?case
  proof (cases "a \<in> set xs")
    case True
    then have "count_list xs a \<noteq> 0" by (simp add: count_list_0_iff)
    then show ?thesis using True by auto
  next
    case False
    then show ?thesis using Cons by auto
  qed
qed

lemma duplicated_names_empty: "duplicated_names types = [] \<longleftrightarrow> distinct (map fst types)"
  unfolding distinct_count_list
  by (auto simp: duplicated_names_def filter_empty_conv length_occurrences not_less)

lemma duplicated_names_count:
  "duplicated_names types =
     filter (\<lambda>n. 1 < count_list (map fst types) n) (first_seen (map fst types))"
  by (simp add: duplicated_names_def length_occurrences)

subsection \<open>The duplicate report\<close>

lemma relative_to_under: "under ROOT p \<Longrightarrow> relative_to p ROOT = Inr (drop (length ROOT) p)"
  by (simp add: relative_to_def under_def)

lemma print_locations_under:
  "\<forall>loc\<in>set locs. under ROOT (fst loc) \<Longrightarrow>
   print_locations ROOT n locs err = (err @ map (diagnostic_line ROOT n) locs, None)"
proof (induction locs arbitrary: err)
  case Nil
  then show ?case by simp
next
  case (Cons loc locs)
  obtain p i where loc: "loc = (p, i)" by (cases loc)
  show ?case using Cons by (simp add: loc relative_to_under diagnostic_line_def)
qed

lemma print_duplicates_under:
  "\<forall>kv\<in>set d. \<forall>loc\<in>set (snd kv). under ROOT (fst loc) \<Longrightarrow>
   print_duplicates ROOT d err =
     (err @ concat (map (\<lambda>kv. map (diagnostic_line ROOT (fst kv)) (snd kv)) d), None)"
proof (induction d arbitrary: err)
  case Nil
  then show ?case by simp
next
  case (Cons kv d)
  obtain n locs where kv: "kv = (n, locs)" by (cases kv)
  show ?case using Cons by (simp add: kv print_locations_under)
qed

lemma occurrences_under:
  "\<forall>e\<in>set types. under ROOT (entry_path e) \<Longrightarrow> loc \<in> set (occurrences types n) \<Longrightarrow>
     under ROOT (fst loc)"
  by (auto simp: occurrences_def entry_path_def)

lemma print_duplicates_report:
  assumes "\<forall>e\<in>set types. under ROOT (entry_path e)"
  shows "print_duplicates ROOT (map (\<lambda>n. (n, occurrences types n)) (duplicated_names types)) err =
     (err @ duplicate_report ROOT types, None)"
proof -
  have "\<forall>kv\<in>set (map (\<lambda>n. (n, occurrences types n)) (duplicated_names types)).
          \<forall>loc\<in>set (snd kv). under ROOT (fst loc)"
    using occurrences_under[OF assms] by auto
  from print_duplicates_under[OF this]
  show ?thesis by (simp add: duplicate_report_def comp_def)
qed

lemma collect_types_cases:
  "collect_types ROOT rd entries =
     (case first_error rd (sort (rglob_rs ROOT entries)) of
        Some e \<Rightarrow> ([], Inl e)
      | None \<Rightarrow>
          if duplicated_names (scanned ROOT rd entries) \<noteq> [] then
            (''Duplicate type definitions found:'' # duplicate_report ROOT (scanned ROOT rd entries),
             Inl (SystemExit 1))
          else ([], Inr (sort_key fst (scanned ROOT rd entries))))"
proof (cases "first_error rd (sort (rglob_rs ROOT entries))")
  case (Some e)
  then show ?thesis by (simp add: collect_types_def scan_files_walk)
next
  case None
  have u: "\<forall>e\<in>set (scanned ROOT rd entries). under ROOT (entry_path e)"
    using scanned_under by blast
  show ?thesis
    unfolding collect_types_def scan_files_walk None option.case sum.case prod.case Let_def
      duplicates_of_index print_duplicates_report[OF u]
    by simp
qed

lemma collect_types_error:
  "collect_types ROOT rd entries = (err, Inl e) \<Longrightarrow>
     main ROOT rd wr entries = \<lparr>stdout = [], stderr = err, written = None, raised = Some e\<rparr>"
  by (simp add: main_def)

lemma collect_types_Inr_stderr: "collect_types ROOT rd entries = (err, Inr types) \<Longrightarrow> err = []"
  by (auto simp: collect_types_cases split: option.splits if_splits)

lemma main_stderr: "stderr (main ROOT rd wr entries) = fst (collect_types ROOT rd entries)"
  by (simp add: main_def Let_def split: prod.splits sum.splits option.splits)

lemma main_cong:
  "collect_types ROOT rd entries = collect_types ROOT rd' entries' \<Longrightarrow>
     main ROOT rd wr entries = main ROOT rd' wr entries'"
  by (simp add: main_def)

lemma collect_types_cong:
  "scan_files rd (sort (rglob_rs ROOT entries)) ([], []) =
     scan_files rd' (sort (rglob_rs ROOT entries')) ([], []) \<Longrightarrow>
   collect_types ROOT rd entries = collect_types ROOT rd' entries'"
  by (simp add: collect_types_def)

lemma in_duplicate_report:
  assumes "e \<in> set types" "1 < count_list (map fst types) (fst e)"
  shows "diagnostic_line ROOT (fst e) (entry_loc e) \<in> set (duplicate_report ROOT types)"
proof -
  have "fst e \<in> set (duplicated_names types)"
    using assms by (auto simp: duplicated_names_def length_occurrences)
  moreover have "entry_loc e \<in> set (occurrences types (fst e))"
    using assms(1) by (auto simp: occurrences_def)
  ultimately show ?thesis by (auto simp: duplicate_report_def)
qed

section \<open>Duplicate validation\<close>

text \<open>
  Claim C2. Let \<open>types\<close> be the records the scan has collected. If a name occurs in two or
  more of them, \<^verbatim>\<open>collect_types\<close> prints a line for every occurrence of every
  duplicated name (all of them, not the first two) and raises \<^verbatim>\<open>SystemExit(1)\<close>, so that
  \<^verbatim>\<open>main\<close> writes no document and the process exits with status 1. If no name is
  duplicated, nothing is printed and the records are returned, the same records sorted by
  name.
\<close>

theorem duplicate_names_are_fatal:
  assumes "scan_files rd (sort (rglob_rs ROOT entries)) ([], []) = Inr (types, seen)"
  shows "(\<not> distinct (map fst types) \<longrightarrow>
            (\<exists>err. collect_types ROOT rd entries = (err, Inl (SystemExit 1))
                \<and> (\<forall>e\<in>set types. 1 < count_list (map fst types) (fst e) \<longrightarrow>
                      diagnostic_line ROOT (fst e) (entry_loc e) \<in> set err)
                \<and> stderr (main ROOT rd wr entries) = err)
            \<and> written (main ROOT rd wr entries) = None
            \<and> exit_status (main ROOT rd wr entries) = 1)
       \<and> (distinct (map fst types) \<longrightarrow>
            collect_types ROOT rd entries = ([], Inr (sort_key fst types))
            \<and> mset (sort_key fst types) = mset types
            \<and> stderr (main ROOT rd wr entries) = [])"
proof (cases "distinct (map fst types)")
  case True
  then have c: "collect_types ROOT rd entries = ([], Inr (sort_key fst types))"
    using scan_result[OF assms] by (simp add: collect_types_cases duplicated_names_empty)
  have "stderr (main ROOT rd wr entries) = []"
    by (simp add: main_stderr c)
  then show ?thesis using True c by simp
next
  case False
  let ?err = "''Duplicate type definitions found:'' # duplicate_report ROOT types"
  have c: "collect_types ROOT rd entries = (?err, Inl (SystemExit 1))"
    using scan_result[OF assms] False by (simp add: collect_types_cases duplicated_names_empty)
  have m: "main ROOT rd wr entries =
      \<lparr>stdout = [], stderr = ?err, written = None, raised = Some (SystemExit 1)\<rparr>"
    using collect_types_error[OF c] .
  have "\<forall>e\<in>set types. 1 < count_list (map fst types) (fst e) \<longrightarrow>
          diagnostic_line ROOT (fst e) (entry_loc e) \<in> set ?err"
    using in_duplicate_report by auto
  then show ?thesis using False c m by (simp add: exit_status_def)
qed

theorem duplicate_names_are_fatal_witness:
  "scan_files (\<lambda>p. Inr ''struct Gamma'') (sort (rglob_rs [''/'', ''r''] [[''b.rs''], [''a.rs'']])) ([], [])
     = Inr ([(''Gamma'', ''struct'', [''/'', ''r'', ''a.rs''], 1),
             (''Gamma'', ''struct'', [''/'', ''r'', ''b.rs''], 1)],
            [(''Gamma'', [([''/'', ''r'', ''a.rs''], 1), ([''/'', ''r'', ''b.rs''], 1)])])
   \<and> written (main [''/'', ''r''] (\<lambda>p. Inr ''struct Gamma'') (\<lambda>p s. None) [[''b.rs''], [''a.rs'']]) = None
   \<and> exit_status (main [''/'', ''r''] (\<lambda>p. Inr ''struct Gamma'') (\<lambda>p s. None) [[''b.rs''], [''a.rs'']]) = 1
   \<and> scan_files (\<lambda>p. Inr (if p = [''/'', ''r'', ''a.rs''] then ''pub struct Beta;'' else ''enum Alpha {''))
        (sort (rglob_rs [''/'', ''r''] [[''b.rs''], [''a.rs'']])) ([], [])
     = Inr ([(''Beta'', ''struct'', [''/'', ''r'', ''a.rs''], 1),
             (''Alpha'', ''enum'', [''/'', ''r'', ''b.rs''], 1)],
            [(''Beta'', [([''/'', ''r'', ''a.rs''], 1)]), (''Alpha'', [([''/'', ''r'', ''b.rs''], 1)])])
   \<and> collect_types [''/'', ''r'']
        (\<lambda>p. Inr (if p = [''/'', ''r'', ''a.rs''] then ''pub struct Beta;'' else ''enum Alpha {''))
        [[''b.rs''], [''a.rs'']]
     = ([], Inr [(''Alpha'', ''enum'', [''/'', ''r'', ''b.rs''], 1),
                 (''Beta'', ''struct'', [''/'', ''r'', ''a.rs''], 1)])"
proof -
  have dup: "scan_files (\<lambda>p. Inr ''struct Gamma'') (sort (rglob_rs [''/'', ''r''] [[''b.rs''], [''a.rs'']])) ([], [])
     = Inr ([(''Gamma'', ''struct'', [''/'', ''r'', ''a.rs''], 1),
             (''Gamma'', ''struct'', [''/'', ''r'', ''b.rs''], 1)],
            [(''Gamma'', [([''/'', ''r'', ''a.rs''], 1), ([''/'', ''r'', ''b.rs''], 1)])])"
    by code_simp
  have ok: "scan_files (\<lambda>p. Inr (if p = [''/'', ''r'', ''a.rs''] then ''pub struct Beta;'' else ''enum Alpha {''))
        (sort (rglob_rs [''/'', ''r''] [[''b.rs''], [''a.rs'']])) ([], [])
     = Inr ([(''Beta'', ''struct'', [''/'', ''r'', ''a.rs''], 1),
             (''Alpha'', ''enum'', [''/'', ''r'', ''b.rs''], 1)],
            [(''Beta'', [([''/'', ''r'', ''a.rs''], 1)]), (''Alpha'', [([''/'', ''r'', ''b.rs''], 1)])])"
    by code_simp
  have srt: "sort_key fst [(''Beta'', ''struct'', [''/'', ''r'', ''a.rs''], 1::int),
             (''Alpha'', ''enum'', [''/'', ''r'', ''b.rs''], 1)] =
       [(''Alpha'', ''enum'', [''/'', ''r'', ''b.rs''], 1), (''Beta'', ''struct'', [''/'', ''r'', ''a.rs''], 1)]"
    by code_simp
  from duplicate_names_are_fatal[OF dup, where wr = "\<lambda>p s. None"]
  have 1: "written (main [''/'', ''r''] (\<lambda>p. Inr ''struct Gamma'') (\<lambda>p s. None) [[''b.rs''], [''a.rs'']]) = None
     \<and> exit_status (main [''/'', ''r''] (\<lambda>p. Inr ''struct Gamma'') (\<lambda>p s. None) [[''b.rs''], [''a.rs'']]) = 1"
    by simp
  from duplicate_names_are_fatal[OF ok, where wr = "\<lambda>p s. None"]
  have 2: "collect_types [''/'', ''r'']
        (\<lambda>p. Inr (if p = [''/'', ''r'', ''a.rs''] then ''pub struct Beta;'' else ''enum Alpha {''))
        [[''b.rs''], [''a.rs'']]
     = ([], Inr [(''Alpha'', ''enum'', [''/'', ''r'', ''b.rs''], 1),
                 (''Beta'', ''struct'', [''/'', ''r'', ''a.rs''], 1)])"
    unfolding srt by simp
  show ?thesis using dup ok 1 2 by blast
qed

text \<open>
  Claim C6. When the scan finds a duplicated name, the diagnostic stream is determined by
  the records: after the heading come the lines \<^verbatim>\<open>name: relative/path#Lline\<close> (each
  indented by two spaces), one for each occurrence. The duplicated names come in the order
  in which the scan first met them, and the occurrences of a name come in the order of the
  scan, which is ascending in the pair of path and line number: files in the sorted order
  of the walk, lines ascending within a file.
\<close>

theorem duplicate_diagnostics_are_ordered:
  assumes "scan_files rd (sort (rglob_rs ROOT entries)) ([], []) = Inr (types, seen)"
    and "distinct entries"
    and "\<not> distinct (map fst types)"
  shows "stderr (main ROOT rd wr entries) =
           ''Duplicate type definitions found:'' #
           concat (map (\<lambda>n. map (diagnostic_line ROOT n) (occurrences types n))
                       (filter (\<lambda>n. 1 < count_list (map fst types) n)
                               (first_seen (map fst types))))
       \<and> sorted_wrt (<) (map entry_loc types)
       \<and> (\<forall>n. sorted_wrt (<) (occurrences types n))"
proof -
  have t: "types = scanned ROOT rd entries" and f: "first_error rd (sort (rglob_rs ROOT entries)) = None"
    using scan_result[OF assms(1)] by simp_all
  have "collect_types ROOT rd entries =
      (''Duplicate type definitions found:'' # duplicate_report ROOT types, Inl (SystemExit 1))"
    using assms(3) by (simp add: collect_types_cases f t[symmetric] duplicated_names_empty)
  then have 1: "stderr (main ROOT rd wr entries) =
      ''Duplicate type definitions found:'' # duplicate_report ROOT types"
    by (simp add: main_stderr)
  have 2: "sorted_wrt (<) (map entry_loc types)"
    unfolding t using assms(2) by (rule scanned_sorted)
  show ?thesis
    using 1 2 occurrences_sorted[OF 2]
    by (simp add: duplicate_report_def duplicated_names_count)
qed

theorem duplicate_diagnostics_are_ordered_witness:
  "distinct [[''b.rs''], [''a.rs'']]
   \<and> scan_files (\<lambda>q. Inr (''struct Gamma'' @ [CHR 0x0A] @ ''enum Delta''))
        (sort (rglob_rs [''/'', ''r''] [[''b.rs''], [''a.rs'']])) ([], [])
     = Inr ([(''Gamma'', ''struct'', [''/'', ''r'', ''a.rs''], 1),
             (''Delta'', ''enum'', [''/'', ''r'', ''a.rs''], 2),
             (''Gamma'', ''struct'', [''/'', ''r'', ''b.rs''], 1),
             (''Delta'', ''enum'', [''/'', ''r'', ''b.rs''], 2)],
            [(''Gamma'', [([''/'', ''r'', ''a.rs''], 1), ([''/'', ''r'', ''b.rs''], 1)]),
             (''Delta'', [([''/'', ''r'', ''a.rs''], 2), ([''/'', ''r'', ''b.rs''], 2)])])
   \<and> stderr (main [''/'', ''r''] (\<lambda>q. Inr (''struct Gamma'' @ [CHR 0x0A] @ ''enum Delta''))
                (\<lambda>p s. None) [[''b.rs''], [''a.rs'']])
     = [''Duplicate type definitions found:'',
        ''  Gamma: a.rs#L1'', ''  Gamma: b.rs#L1'', ''  Delta: a.rs#L2'', ''  Delta: b.rs#L2'']"
proof -
  let ?types = "[(''Gamma'', ''struct'', [''/'', ''r'', ''a.rs''], 1::int),
             (''Delta'', ''enum'', [''/'', ''r'', ''a.rs''], 2),
             (''Gamma'', ''struct'', [''/'', ''r'', ''b.rs''], 1),
             (''Delta'', ''enum'', [''/'', ''r'', ''b.rs''], 2)]"
  have d: "distinct [[''b.rs''], [''a.rs'']]" by simp
  have s: "scan_files (\<lambda>q. Inr (''struct Gamma'' @ [CHR 0x0A] @ ''enum Delta''))
        (sort (rglob_rs [''/'', ''r''] [[''b.rs''], [''a.rs'']])) ([], [])
     = Inr (?types,
            [(''Gamma'', [([''/'', ''r'', ''a.rs''], 1), ([''/'', ''r'', ''b.rs''], 1)]),
             (''Delta'', [([''/'', ''r'', ''a.rs''], 2), ([''/'', ''r'', ''b.rs''], 2)])])"
    by code_simp
  have n: "\<not> distinct (map fst ?types)" by simp
  have r: "''Duplicate type definitions found:'' #
           concat (map (\<lambda>n. map (diagnostic_line [''/'', ''r''] n) (occurrences ?types n))
                       (filter (\<lambda>n. 1 < count_list (map fst ?types) n)
                               (first_seen (map fst ?types))))
     = [''Duplicate type definitions found:'',
        ''  Gamma: a.rs#L1'', ''  Gamma: b.rs#L1'', ''  Delta: a.rs#L2'', ''  Delta: b.rs#L2'']"
    by code_simp
  from duplicate_diagnostics_are_ordered[OF s d n, where wr = "\<lambda>p s. None"] r
  have "stderr (main [''/'', ''r''] (\<lambda>q. Inr (''struct Gamma'' @ [CHR 0x0A] @ ''enum Delta''))
                (\<lambda>p s. None) [[''b.rs''], [''a.rs'']])
     = [''Duplicate type definitions found:'',
        ''  Gamma: a.rs#L1'', ''  Gamma: b.rs#L1'', ''  Delta: a.rs#L2'', ''  Delta: b.rs#L2'']"
    by (simp only:)
  then show ?thesis using d s by blast
qed

section \<open>The report\<close>

lemma append_rows_under:
  "\<forall>e\<in>set types. under ROOT (entry_path e) \<Longrightarrow>
   append_rows ROOT types lines = Inr (lines @ map (table_row ROOT) types)"
proof (induction types arbitrary: lines)
  case Nil
  then show ?case by simp
next
  case (Cons e types)
  obtain name kind p line where e: "e = (name, kind, p, line)" by (cases e)
  have "under ROOT p" using Cons.prems by (simp add: e entry_path_def entry_loc_def)
  then show ?case using Cons by (simp add: e relative_to_under table_row_def)
qed

lemma render_table_under:
  "\<forall>e\<in>set types. under ROOT (entry_path e) \<Longrightarrow>
   render_table ROOT types =
     Inr (join [CHR 0x0A]
            ([''# Type Index'',
              '''',
              ''This file lists every `struct` and `enum` defined in the repository.'',
              '''',
              ''| Type | Kind | Location |'',
              ''| --- | --- | --- |'']
             @ map (table_row ROOT) types
             @ ['''',
                ''Generated automatically to support DRY efforts.'',
                '''',
                ''Run `python docs/generate_type_index.py` to regenerate.'',
                '''']))"
  by (simp add: render_table_def append_rows_under)

lemma sort_key_under:
  "\<forall>e\<in>set types. under ROOT (entry_path e) \<Longrightarrow>
   \<forall>e\<in>set (sort_key fst types). under ROOT (entry_path e)"
  by simp

lemma sort_key_fst_strict:
  "distinct (map fst types) \<Longrightarrow> sorted_wrt (<) (map fst (sort_key fst types))"
proof -
  assume d: "distinct (map fst types)"
  have "mset (map fst (sort_key fst types)) = mset (map fst types)" by simp
  then have "distinct (map fst (sort_key fst types))"
    using d by (metis mset_eq_imp_distinct_iff)
  then show ?thesis by (simp add: strict_sorted_iff)
qed

lemma main_success:
  assumes "collect_types ROOT rd entries = (err, Inr types)"
    and "render_table ROOT types = Inr output"
    and "wr (ROOT @ [''docs'', ''TYPE_INDEX.md'']) output = None"
  shows "main ROOT rd wr entries =
     \<lparr>stdout = [''Wrote docs/TYPE_INDEX.md with '' @ str_int (int (length types)) @ '' entries.''],
      stderr = err, written = Some (ROOT @ [''docs'', ''TYPE_INDEX.md''], output), raised = None\<rparr>"
  using assms by (simp add: main_def relative_to_def as_posix_def)

text \<open>
  Claim C3. Let \<open>types\<close> be the records the scan has collected, with no name twice. Then
  \<^verbatim>\<open>collect_types\<close> prints nothing and returns rows that are those records, each once, in
  strictly ascending order of their names, which is the lexicographic order of the
  character codes (uppercase before lowercase, a prefix before its extensions). The
  document \<^verbatim>\<open>render_table\<close> makes of these rows is the fixed heading, one row for each of
  them in that order, and the fixed trailer, joined by newlines and ending in one newline;
  a row shows the name, the kind and the path relative to \<^verbatim>\<open>ROOT\<close> with forward slashes,
  followed by \<^verbatim>\<open>#L\<close> and the line number. When the destination can be written, \<^verbatim>\<open>main\<close>
  writes exactly this document and reports the number of rows.
\<close>

theorem report_rows_sorted_by_name:
  assumes "scan_files rd (sort (rglob_rs ROOT entries)) ([], []) = Inr (types, seen)"
    and "distinct (map fst types)"
  shows "\<exists>rows doc.
           collect_types ROOT rd entries = ([], Inr rows)
         \<and> sorted_wrt (<) (map fst rows)
         \<and> mset rows = mset types
         \<and> render_table ROOT rows = Inr doc
         \<and> doc = join [CHR 0x0A]
                  ([''# Type Index'',
                    '''',
                    ''This file lists every `struct` and `enum` defined in the repository.'',
                    '''',
                    ''| Type | Kind | Location |'',
                    ''| --- | --- | --- |'']
                   @ map (table_row ROOT) rows
                   @ ['''',
                      ''Generated automatically to support DRY efforts.'',
                      '''',
                      ''Run `python docs/generate_type_index.py` to regenerate.'',
                      ''''])
         \<and> (wr (ROOT @ [''docs'', ''TYPE_INDEX.md'']) doc = None \<longrightarrow>
              main ROOT rd wr entries =
                \<lparr>stdout = [''Wrote docs/TYPE_INDEX.md with '' @ str_int (int (length rows))
                              @ '' entries.''],
                 stderr = [],
                 written = Some (ROOT @ [''docs'', ''TYPE_INDEX.md''], doc),
                 raised = None\<rparr>)"
proof -
  let ?rows = "sort_key fst types"
  let ?doc = "join [CHR 0x0A]
                  ([''# Type Index'',
                    '''',
                    ''This file lists every `struct` and `enum` defined in the repository.'',
                    '''',
                    ''| Type | Kind | Location |'',
                    ''| --- | --- | --- |'']
                   @ map (table_row ROOT) ?rows
                   @ ['''',
                      ''Generated automatically to support DRY efforts.'',
                      '''',
                      ''Run `python docs/generate_type_index.py` to regenerate.'',
                      ''''])"
  have t: "types = scanned ROOT rd entries"
    and f: "first_error rd (sort (rglob_rs ROOT entries)) = None"
    using scan_result[OF assms(1)] by simp_all
  have c: "collect_types ROOT rd entries = ([], Inr ?rows)"
    using assms(2) by (simp add: collect_types_cases f t[symmetric] duplicated_names_empty)
  have u: "\<forall>e\<in>set types. under ROOT (entry_path e)"
    unfolding t using scanned_under by blast
  have r: "render_table ROOT ?rows = Inr ?doc"
    by (rule render_table_under[OF sort_key_under[OF u]])
  have s: "sorted_wrt (<) (map fst ?rows)" by (rule sort_key_fst_strict[OF assms(2)])
  have m: "mset ?rows = mset types" by (rule mset_sort)
  have w: "main ROOT rd wr entries =
                \<lparr>stdout = [''Wrote docs/TYPE_INDEX.md with '' @ str_int (int (length ?rows))
                              @ '' entries.''],
                 stderr = [],
                 written = Some (ROOT @ [''docs'', ''TYPE_INDEX.md''], ?doc),
                 raised = None\<rparr>"
    if "wr (ROOT @ [''docs'', ''TYPE_INDEX.md'']) ?doc = None"
    by (rule main_success[where wr = wr, OF c r that])
  show ?thesis
    by (intro exI[of _ ?rows] exI[of _ ?doc] conjI impI c s m r refl w)
qed

theorem report_rows_sorted_by_name_witness:
  "''Zeta'' < ''alpha'' \<and> ''Ab'' < ''Abc''
   \<and> scan_files (\<lambda>p. Inr (if p = [''/'', ''r'', ''a.rs''] then [CHR 0x0A, CHR 0x0A] @ ''pub struct Beta;''
                          else ''enum Alpha {''))
        (sort (rglob_rs [''/'', ''r''] [[''src'', ''b.rs''], [''a.rs'']])) ([], [])
     = Inr ([(''Beta'', ''struct'', [''/'', ''r'', ''a.rs''], 3),
             (''Alpha'', ''enum'', [''/'', ''r'', ''src'', ''b.rs''], 1)],
            [(''Beta'', [([''/'', ''r'', ''a.rs''], 3)]),
             (''Alpha'', [([''/'', ''r'', ''src'', ''b.rs''], 1)])])
   \<and> collect_types [''/'', ''r'']
        (\<lambda>p. Inr (if p = [''/'', ''r'', ''a.rs''] then [CHR 0x0A, CHR 0x0A] @ ''pub struct Beta;''
                   else ''enum Alpha {''))
        [[''src'', ''b.rs''], [''a.rs'']]
     = ([], Inr [(''Alpha'', ''enum'', [''/'', ''r'', ''src'', ''b.rs''], 1),
                 (''Beta'', ''struct'', [''/'', ''r'', ''a.rs''], 3)])
   \<and> main [''/'', ''r'']
        (\<lambda>p. Inr (if p = [''/'', ''r'', ''a.rs''] then [CHR 0x0A, CHR 0x0A] @ ''pub struct Beta;''
                   else ''enum Alpha {''))
        (\<lambda>p s. None) [[''src'', ''b.rs''], [''a.rs'']]
     = \<lparr>stdout = [''Wrote docs/TYPE_INDEX.md with 2 entries.''],
        stderr = [],
        written = Some ([''/'', ''r'', ''docs'', ''TYPE_INDEX.md''],
          ''# Type Index'' @ [CHR 0x0A, CHR 0x0A]
          @ ''This file lists every `struct` and `enum` defined in the repository.''
          @ [CHR 0x0A, CHR 0x0A]
          @ ''| Type | Kind | Location |'' @ [CHR 0x0A]
          @ ''| --- | --- | --- |'' @ [CHR 0x0A]
          @ ''| Alpha | enum | `src/b.rs#L1` |'' @ [CHR 0x0A]
          @ ''| Beta | struct | `a.rs#L3` |'' @ [CHR 0x0A, CHR 0x0A]
          @ ''Generated automatically to support DRY efforts.'' @ [CHR 0x0A, CHR 0x0A]
          @ ''Run `python docs/generate_type_index.py` to regenerate.'' @ [CHR 0x0A]),
        raised = None\<rparr>"
proof -
  let ?rd = "\<lambda>p. Inr (if p = [''/'', ''r'', ''a.rs''] then [CHR 0x0A, CHR 0x0A] @ ''pub struct Beta;''
                       else ''enum Alpha {'') :: exn + string"
  let ?types = "[(''Beta'', ''struct'', [''/'', ''r'', ''a.rs''], 3::int),
                 (''Alpha'', ''enum'', [''/'', ''r'', ''src'', ''b.rs''], 1)]"
  let ?rows = "[(''Alpha'', ''enum'', [''/'', ''r'', ''src'', ''b.rs''], 1::int),
                (''Beta'', ''struct'', [''/'', ''r'', ''a.rs''], 3)]"
  have o: "''Zeta'' < ''alpha''" "''Ab'' < ''Abc''" by code_simp+
  have sc: "scan_files ?rd (sort (rglob_rs [''/'', ''r''] [[''src'', ''b.rs''], [''a.rs'']])) ([], [])
     = Inr (?types,
            [(''Beta'', [([''/'', ''r'', ''a.rs''], 3)]),
             (''Alpha'', [([''/'', ''r'', ''src'', ''b.rs''], 1)])])"
    by code_simp
  have d: "distinct (map fst ?types)" by simp
  have c: "collect_types [''/'', ''r''] ?rd [[''src'', ''b.rs''], [''a.rs'']] = ([], Inr ?rows)"
    by code_simp
  have j: "join [CHR 0x0A]
                  ([''# Type Index'',
                    '''',
                    ''This file lists every `struct` and `enum` defined in the repository.'',
                    '''',
                    ''| Type | Kind | Location |'',
                    ''| --- | --- | --- |'']
                   @ map (table_row [''/'', ''r'']) ?rows
                   @ ['''',
                      ''Generated automatically to support DRY efforts.'',
                      '''',
                      ''Run `python docs/generate_type_index.py` to regenerate.'',
                      ''''])
     = ''# Type Index'' @ [CHR 0x0A, CHR 0x0A]
          @ ''This file lists every `struct` and `enum` defined in the repository.''
          @ [CHR 0x0A, CHR 0x0A]
          @ ''| Type | Kind | Location |'' @ [CHR 0x0A]
          @ ''| --- | --- | --- |'' @ [CHR 0x0A]
          @ ''| Alpha | enum | `src/b.rs#L1` |'' @ [CHR 0x0A]
          @ ''| Beta | struct | `a.rs#L3` |'' @ [CHR 0x0A, CHR 0x0A]
          @ ''Generated automatically to support DRY efforts.'' @ [CHR 0x0A, CHR 0x0A]
          @ ''Run `python docs/generate_type_index.py` to regenerate.'' @ [CHR 0x0A]"
    by code_simp
  have n: "''Wrote docs/TYPE_INDEX.md with '' @ str_int (int (length ?rows)) @ '' entries.''
      = ''Wrote docs/TYPE_INDEX.md with 2 entries.''"
    by code_simp
  from report_rows_sorted_by_name[OF sc d, where wr = "\<lambda>p s. None"]
  obtain rows doc where
    1: "collect_types [''/'', ''r''] ?rd [[''src'', ''b.rs''], [''a.rs'']] = ([], Inr rows)" and
    2: "doc = join [CHR 0x0A]
                  ([''# Type Index'',
                    '''',
                    ''This file lists every `struct` and `enum` defined in the repository.'',
                    '''',
                    ''| Type | Kind | Location |'',
                    ''| --- | --- | --- |'']
                   @ map (table_row [''/'', ''r'']) rows
                   @ ['''',
                      ''Generated automatically to support DRY efforts.'',
                      '''',
                      ''Run `python docs/generate_type_index.py` to regenerate.'',
                      ''''])" and
    3: "main [''/'', ''r''] ?rd (\<lambda>p s. None) [[''src'', ''b.rs''], [''a.rs'']] =
          \<lparr>stdout = [''Wrote docs/TYPE_INDEX.md with '' @ str_int (int (length rows))
                        @ '' entries.''],
           stderr = [],
           written = Some ([''/'', ''r''] @ [''docs'', ''TYPE_INDEX.md''], doc),
           raised = None\<rparr>"
    by blast
  have rows: "rows = ?rows" using 1 c by simp
  have doc: "doc = ''# Type Index'' @ [CHR 0x0A, CHR 0x0A]
          @ ''This file lists every `struct` and `enum` defined in the repository.''
          @ [CHR 0x0A, CHR 0x0A]
          @ ''| Type | Kind | Location |'' @ [CHR 0x0A]
          @ ''| --- | --- | --- |'' @ [CHR 0x0A]
          @ ''| Alpha | enum | `src/b.rs#L1` |'' @ [CHR 0x0A]
          @ ''| Beta | struct | `a.rs#L3` |'' @ [CHR 0x0A, CHR 0x0A]
          @ ''Generated automatically to support DRY efforts.'' @ [CHR 0x0A, CHR 0x0A]
          @ ''Run `python docs/generate_type_index.py` to regenerate.'' @ [CHR 0x0A]"
    unfolding 2 rows by (rule j)
  have 4: "main [''/'', ''r''] ?rd (\<lambda>p s. None) [[''src'', ''b.rs''], [''a.rs'']] =
          \<lparr>stdout = [''Wrote docs/TYPE_INDEX.md with 2 entries.''],
           stderr = [],
           written = Some ([''/'', ''r'', ''docs'', ''TYPE_INDEX.md''], doc),
           raised = None\<rparr>"
    using 3 n unfolding rows by simp
  show ?thesis
    using o sc c 4[unfolded doc] by (intro conjI)
qed

lemma render_table_empty: "render_table ROOT [] = Inr empty_report"
  by (simp add: render_table_def empty_report_def)

lemma str_int_0: "str_int 0 = ''0''"
  by code_simp

text \<open>
  Claim C9. With no record at all, \<^verbatim>\<open>render_table\<close> still yields the whole skeleton
  (title, sentence, the two heading rows of the table, trailer, instruction) without a
  data row. When the scan returns the empty list and the destination can be written,
  \<^verbatim>\<open>main\<close> writes that skeleton, reports a count of 0 and exits with status 0. An empty
  tree is such a case.
\<close>

theorem empty_scan_writes_skeleton:
  "render_table ROOT [] = Inr empty_report
   \<and> collect_types ROOT rd [] = ([], Inr [])
   \<and> (collect_types ROOT rd entries = (err, Inr [])
        \<and> wr (ROOT @ [''docs'', ''TYPE_INDEX.md'']) empty_report = None \<longrightarrow>
      main ROOT rd wr entries =
        \<lparr>stdout = [''Wrote docs/TYPE_INDEX.md with 0 entries.''], stderr = [],
         written = Some (ROOT @ [''docs'', ''TYPE_INDEX.md''], empty_report), raised = None\<rparr>
      \<and> exit_status (main ROOT rd wr entries) = 0)"
proof -
  have 1: "collect_types ROOT rd [] = ([], Inr [])"
    by (simp add: collect_types_def rglob_rs_def)
  have 2: "main ROOT rd wr entries =
        \<lparr>stdout = [''Wrote docs/TYPE_INDEX.md with 0 entries.''], stderr = [],
         written = Some (ROOT @ [''docs'', ''TYPE_INDEX.md''], empty_report), raised = None\<rparr>
      \<and> exit_status (main ROOT rd wr entries) = 0"
    if c: "collect_types ROOT rd entries = (err, Inr [])"
      and w: "wr (ROOT @ [''docs'', ''TYPE_INDEX.md'']) empty_report = None"
    using main_success[where wr = wr, OF c render_table_empty w] collect_types_Inr_stderr[OF c]
    by (simp add: str_int_0 exit_status_def)
  show ?thesis using render_table_empty 1 2 by blast
qed

theorem empty_scan_writes_skeleton_witness:
  "collect_types [''/'', ''r''] (\<lambda>q. Inr ''fn main() {}'') [[''target'', ''x.rs''], [''a.rs''], [''notes.txt'']]
     = ([], Inr [])
   \<and> main [''/'', ''r''] (\<lambda>q. Inr ''fn main() {}'') (\<lambda>p s. None)
        [[''target'', ''x.rs''], [''a.rs''], [''notes.txt'']]
     = \<lparr>stdout = [''Wrote docs/TYPE_INDEX.md with 0 entries.''], stderr = [],
        written = Some ([''/'', ''r''] @ [''docs'', ''TYPE_INDEX.md''], empty_report), raised = None\<rparr>"
proof -
  have c: "collect_types [''/'', ''r''] (\<lambda>q. Inr ''fn main() {}'')
      [[''target'', ''x.rs''], [''a.rs''], [''notes.txt'']] = ([], Inr [])"
    by code_simp
  have w: "(\<lambda>p s. None) ([''/'', ''r''] @ [''docs'', ''TYPE_INDEX.md'']) empty_report = (None :: exn option)"
    by simp
  from empty_scan_writes_skeleton[of "[''/'', ''r'']" "\<lambda>q. Inr ''fn main() {}''"
      "[[''target'', ''x.rs''], [''a.rs''], [''notes.txt'']]" "[]" "\<lambda>p s. None"] c w
  show ?thesis by blast
qed

section \<open>The tree walker\<close>

lemma scan_files_filter:
  assumes "\<And>p. \<not> K p \<Longrightarrow> should_skip p \<or> rd p = Inl UnicodeDecodeError"
  shows "scan_files rd (filter K ps) st = scan_files rd ps st"
proof (induction ps arbitrary: st)
  case Nil
  then show ?case by simp
next
  case (Cons p ps)
  show ?case
  proof (cases "K p")
    case True
    then show ?thesis using Cons by (simp split: sum.splits)
  next
    case False
    then show ?thesis using Cons assms[OF False] by auto
  qed
qed

lemma rglob_rs_filter:
  "rglob_rs ROOT (filter (\<lambda>rel. K (ROOT @ rel)) entries) = filter K (rglob_rs ROOT entries)"
  by (simp add: rglob_rs_def filter_map comp_def conj_commute)

lemma scan_files_walk_filter:
  assumes "\<And>p. \<not> K p \<Longrightarrow> should_skip p \<or> rd p = Inl UnicodeDecodeError"
  shows "scan_files rd (sort (rglob_rs ROOT (filter (\<lambda>rel. K (ROOT @ rel)) entries))) st =
         scan_files rd (sort (rglob_rs ROOT entries)) st"
  unfolding rglob_rs_filter filter_sort[symmetric] by (rule scan_files_filter[OF assms])

lemma scan_files_agree:
  assumes "\<And>p. \<not> should_skip p \<Longrightarrow> rd p = rd' p"
  shows "scan_files rd ps st = scan_files rd' ps st"
  by (induction ps arbitrary: st) (simp_all add: assms split: sum.splits)

lemma should_skip_iff:
  "should_skip p \<longleftrightarrow> (\<exists>part\<in>set p. part = ''.git'' \<or> part = ''target'' \<or> part = ''node_modules'')"
  by (auto simp: should_skip_def list_ex_iff IGNORE_DIRS_def)

text \<open>
  Claim C5. A path is skipped exactly when one of its parts, at any depth, is
  \<^verbatim>\<open>.git\<close>, \<^verbatim>\<open>target\<close> or \<^verbatim>\<open>node_modules\<close> (the parts of \<^verbatim>\<open>ROOT\<close> count, since
  the paths of the walk begin with them). A skipped file is never read: the run is the same
  as without the file, it does not depend on what the file contains, and no record of the
  scan carries a skipped path.
\<close>

theorem ignored_directories_are_excluded:
  "(should_skip p \<longleftrightarrow>
      (\<exists>part\<in>set p. part = ''.git'' \<or> part = ''target'' \<or> part = ''node_modules''))
   \<and> (should_skip p \<longrightarrow> scan_files rd (p # ps) st = scan_files rd ps st)
   \<and> main ROOT rd wr entries =
       main ROOT rd wr (filter (\<lambda>rel. \<not> should_skip (ROOT @ rel)) entries)
   \<and> ((\<forall>q. \<not> should_skip q \<longrightarrow> rd q = rd' q) \<longrightarrow>
         main ROOT rd wr entries = main ROOT rd' wr entries)
   \<and> (\<forall>types seen. scan_files rd (sort (rglob_rs ROOT entries)) ([], []) = Inr (types, seen) \<longrightarrow>
         (\<forall>e\<in>set types. \<not> should_skip (entry_path e)))"
proof -
  have 1: "scan_files rd (sort (rglob_rs ROOT (filter (\<lambda>rel. \<not> should_skip (ROOT @ rel)) entries)))
             ([], []) = scan_files rd (sort (rglob_rs ROOT entries)) ([], [])"
    by (rule scan_files_walk_filter) simp
  have 2: "main ROOT rd wr entries =
       main ROOT rd wr (filter (\<lambda>rel. \<not> should_skip (ROOT @ rel)) entries)"
    by (intro main_cong collect_types_cong) (simp only: 1)
  have 3: "main ROOT rd wr entries = main ROOT rd' wr entries"
    if "\<forall>q. \<not> should_skip q \<longrightarrow> rd q = rd' q"
    using that by (intro main_cong collect_types_cong scan_files_agree) simp
  have 4: "\<forall>e\<in>set types. \<not> should_skip (entry_path e)"
    if "scan_files rd (sort (rglob_rs ROOT entries)) ([], []) = Inr (types, seen)" for types seen
    using scan_result(2)[OF that] scanned_path by blast
  show ?thesis using should_skip_iff 2 3 4 by simp
qed

theorem ignored_directories_are_excluded_witness:
  "should_skip [''/'', ''r'', ''target'', ''debug'', ''x.rs'']
   \<and> main [''/'', ''r'']
        (\<lambda>q. if q = [''/'', ''r'', ''target'', ''debug'', ''x.rs''] then Inr ''struct Hidden''
              else Inr ''struct Shown'')
        (\<lambda>p s. None) [[''target'', ''debug'', ''x.rs''], [''a.rs'']]
     = main [''/'', ''r''] (\<lambda>q. Inr ''struct Shown'') (\<lambda>p s. None)
        [[''target'', ''debug'', ''x.rs''], [''a.rs'']]
   \<and> scan_files (\<lambda>q. Inr ''struct Hidden'')
        (sort (rglob_rs [''/'', ''r''] [[''target'', ''debug'', ''x.rs'']])) ([], []) = Inr ([], [])"
proof -
  let ?p = "[''/'', ''r'', ''target'', ''debug'', ''x.rs'']"
  let ?rd = "\<lambda>q. if q = ?p then Inr ''struct Hidden'' else (Inr ''struct Shown'' :: exn + string)"
  note inst = ignored_directories_are_excluded[of ?p ?rd "[]" "([], [])" "[''/'', ''r'']"
      "\<lambda>p s. None" "[[''target'', ''debug'', ''x.rs''], [''a.rs'']]" "\<lambda>q. Inr ''struct Shown''"]
  have s: "should_skip ?p" using inst by simp
  have h: "\<forall>q. \<not> should_skip q \<longrightarrow> ?rd q = Inr ''struct Shown''"
    using s by auto
  have m: "main [''/'', ''r''] ?rd (\<lambda>p s. None) [[''target'', ''debug'', ''x.rs''], [''a.rs'']]
     = main [''/'', ''r''] (\<lambda>q. Inr ''struct Shown'') (\<lambda>p s. None)
        [[''target'', ''debug'', ''x.rs''], [''a.rs'']]"
    using inst h by blast
  have e: "scan_files (\<lambda>q. Inr ''struct Hidden'')
        (sort (rglob_rs [''/'', ''r''] [[''target'', ''debug'', ''x.rs'']])) ([], []) = Inr ([], [])"
    by code_simp
  show ?thesis using s m e by blast
qed

text \<open>
  Claim C7. A file whose reading raises \<^verbatim>\<open>UnicodeDecodeError\<close> is passed over and the
  loop goes on with the next path; the whole run, both streams and the document included,
  is the run on the tree without the undecodable files.
\<close>

theorem undecodable_files_are_skipped:
  "(\<not> should_skip p \<and> rd p = Inl UnicodeDecodeError \<longrightarrow>
      scan_files rd (p # ps) st = scan_files rd ps st)
   \<and> main ROOT rd wr entries =
       main ROOT rd wr (filter (\<lambda>rel. rd (ROOT @ rel) \<noteq> Inl UnicodeDecodeError) entries)"
proof -
  have 1: "scan_files rd
             (sort (rglob_rs ROOT (filter (\<lambda>rel. rd (ROOT @ rel) \<noteq> Inl UnicodeDecodeError) entries)))
             ([], []) = scan_files rd (sort (rglob_rs ROOT entries)) ([], [])"
    by (rule scan_files_walk_filter) simp
  have "main ROOT rd wr entries =
       main ROOT rd wr (filter (\<lambda>rel. rd (ROOT @ rel) \<noteq> Inl UnicodeDecodeError) entries)"
    by (intro main_cong collect_types_cong) (simp only: 1)
  then show ?thesis by simp
qed

theorem undecodable_files_are_skipped_witness:
  "\<not> should_skip [''/'', ''r'', ''bad.rs'']
   \<and> (if [''/'', ''r'', ''bad.rs''] = [''/'', ''r'', ''bad.rs''] then Inl UnicodeDecodeError
       else (Inr ''struct Gamma'' :: exn + string)) = Inl UnicodeDecodeError
   \<and> scan_files (\<lambda>q. if q = [''/'', ''r'', ''bad.rs''] then Inl UnicodeDecodeError else Inr ''struct Gamma'')
        [[''/'', ''r'', ''bad.rs''], [''/'', ''r'', ''c.rs'']] ([], [])
     = Inr ([(''Gamma'', ''struct'', [''/'', ''r'', ''c.rs''], 1)],
            [(''Gamma'', [([''/'', ''r'', ''c.rs''], 1)])])"
proof -
  let ?rd = "\<lambda>q. if q = [''/'', ''r'', ''bad.rs''] then Inl UnicodeDecodeError
                  else (Inr ''struct Gamma'' :: exn + string)"
  have s: "\<not> should_skip [''/'', ''r'', ''bad.rs'']" by code_simp
  have r: "?rd [''/'', ''r'', ''bad.rs''] = Inl UnicodeDecodeError" by simp
  have t: "scan_files ?rd [[''/'', ''r'', ''c.rs'']] ([], [])
     = Inr ([(''Gamma'', ''struct'', [''/'', ''r'', ''c.rs''], 1)],
            [(''Gamma'', [([''/'', ''r'', ''c.rs''], 1)])])"
    by code_simp
  from undecodable_files_are_skipped[of "[''/'', ''r'', ''bad.rs'']" ?rd "[[''/'', ''r'', ''c.rs'']]" "([], [])"]
    s r t
  have "scan_files ?rd [[''/'', ''r'', ''bad.rs''], [''/'', ''r'', ''c.rs'']] ([], [])
     = Inr ([(''Gamma'', ''struct'', [''/'', ''r'', ''c.rs''], 1)],
            [(''Gamma'', [([''/'', ''r'', ''c.rs''], 1)])])"
    by metis
  then show ?thesis using s by simp
qed

lemma first_error_Some:
  "first_error rd ps = Some e \<Longrightarrow>
     \<exists>p\<in>set ps. \<not> should_skip p \<and> rd p = Inl e \<and> e \<noteq> UnicodeDecodeError"
  by (induction ps) (auto split: if_splits sum.splits)

lemma first_error_None:
  "first_error rd ps = None \<Longrightarrow> p \<in> set ps \<Longrightarrow> \<not> should_skip p \<Longrightarrow> rd p = Inl e \<Longrightarrow>
     e = UnicodeDecodeError"
  by (induction ps) (auto split: if_splits sum.splits)

text \<open>
  Claim C10. Of the exceptions that reading a file can raise, the loop catches
  \<^verbatim>\<open>UnicodeDecodeError\<close> alone. If reading some \<^verbatim>\<open>.rs\<close> file outside the ignored
  directories raises anything else, such an exception leaves \<^verbatim>\<open>collect_types\<close> and
  \<^verbatim>\<open>main\<close>: nothing is printed and no document is written.
\<close>

theorem other_read_errors_propagate:
  "(\<not> should_skip p \<and> rd p = Inl e \<longrightarrow>
      scan_files rd (p # ps) st = (if e = UnicodeDecodeError then scan_files rd ps st else Inl e))
   \<and> (rel \<in> set entries \<and> rel \<noteq> [] \<and> endswith (last rel) ''.rs'' \<and> \<not> should_skip (ROOT @ rel)
        \<and> rd (ROOT @ rel) = Inl e \<and> e \<noteq> UnicodeDecodeError \<longrightarrow>
      (\<exists>e' q. q \<in> set (rglob_rs ROOT entries) \<and> \<not> should_skip q \<and> rd q = Inl e'
          \<and> e' \<noteq> UnicodeDecodeError
          \<and> collect_types ROOT rd entries = ([], Inl e')
          \<and> main ROOT rd wr entries =
               \<lparr>stdout = [], stderr = [], written = None, raised = Some e'\<rparr>))"
proof -
  have 2: "\<exists>e' q. q \<in> set (rglob_rs ROOT entries) \<and> \<not> should_skip q \<and> rd q = Inl e'
          \<and> e' \<noteq> UnicodeDecodeError
          \<and> collect_types ROOT rd entries = ([], Inl e')
          \<and> main ROOT rd wr entries =
               \<lparr>stdout = [], stderr = [], written = None, raised = Some e'\<rparr>"
    if h: "rel \<in> set entries" "rel \<noteq> []" "endswith (last rel) ''.rs''"
      "\<not> should_skip (ROOT @ rel)" "rd (ROOT @ rel) = Inl e" "e \<noteq> UnicodeDecodeError"
  proof -
    let ?ps = "sort (rglob_rs ROOT entries)"
    have "ROOT @ rel \<in> set ?ps" using h(1-3) by (simp add: rglob_rs_def)
    then have "first_error rd ?ps \<noteq> None" using first_error_None h(4-6) by blast
    then obtain e' where e': "first_error rd ?ps = Some e'" by auto
    from first_error_Some[OF e'] obtain q where
      q: "q \<in> set (rglob_rs ROOT entries)" "\<not> should_skip q" "rd q = Inl e'"
        "e' \<noteq> UnicodeDecodeError" by auto
    have c: "collect_types ROOT rd entries = ([], Inl e')" by (simp add: collect_types_cases e')
    show ?thesis using q c collect_types_error[OF c] by blast
  qed
  show ?thesis using 2 by simp
qed

theorem other_read_errors_propagate_witness:
  "\<not> should_skip [''/'', ''r'', ''a.rs'']
   \<and> [''a.rs''] \<in> set [[''b.rs''], [''a.rs'']] \<and> endswith (last [''a.rs'']) ''.rs''
   \<and> OSError ''denied'' \<noteq> UnicodeDecodeError
   \<and> (\<exists>e'. e' \<noteq> UnicodeDecodeError
        \<and> main [''/'', ''r''] (\<lambda>q. Inl (OSError ''denied'')) (\<lambda>p s. None) [[''b.rs''], [''a.rs'']]
            = \<lparr>stdout = [], stderr = [], written = None, raised = Some e'\<rparr>)"
proof -
  let ?rd = "\<lambda>q :: path. (Inl (OSError ''denied'') :: exn + string)"
  have s: "\<not> should_skip ([''/'', ''r''] @ [''a.rs''])" by code_simp
  have m: "[''a.rs''] \<in> set [[''b.rs''], [''a.rs'']]" by simp
  have n: "[''a.rs''] \<noteq> ([] :: path)" by simp
  have w: "endswith (last [''a.rs'']) ''.rs''" by code_simp
  have r: "?rd ([''/'', ''r''] @ [''a.rs'']) = Inl (OSError ''denied'')" by simp
  have d: "OSError ''denied'' \<noteq> UnicodeDecodeError" by simp
  from other_read_errors_propagate[of "[''/'', ''r''] @ [''a.rs'']" ?rd "OSError ''denied''" "[]"
      "([], [])" "[''a.rs'']" "[[''b.rs''], [''a.rs'']]" "[''/'', ''r'']" "\<lambda>p s. None"]
    s m n w r d
  have "\<exists>e'. e' \<noteq> UnicodeDecodeError
        \<and> main [''/'', ''r''] ?rd (\<lambda>p s. None) [[''b.rs''], [''a.rs'']]
            = \<lparr>stdout = [], stderr = [], written = None, raised = Some e'\<rparr>"
    by blast
  then show ?thesis using s m w d by simp
qed

section \<open>Determinism\<close>

lemma sort_rglob_rs_mset:
  "mset entries = mset entries' \<Longrightarrow> sort (rglob_rs ROOT entries) = sort (rglob_rs ROOT entries')"
proof -
  assume a: "mset entries = mset entries'"
  have "mset (rglob_rs ROOT entries') = mset (rglob_rs ROOT entries)"
    using a by (simp add: rglob_rs_def)
  then have "mset (sort (rglob_rs ROOT entries')) = mset (rglob_rs ROOT entries)" by simp
  then show ?thesis by (intro properties_for_sort) simp_all
qed

text \<open>
  Claim C8. The run is a function of the root, of what reading and writing each path
  yields, and of the entries below the root; it does not depend on the order in which the
  file system lists those entries. Two listings of the same entries give the same document,
  the same summary line, the same diagnostics and the same exit.
\<close>

theorem output_independent_of_iteration_order:
  assumes "mset entries = mset entries'"
  shows "main ROOT rd wr entries = main ROOT rd wr entries'"
  by (intro main_cong collect_types_cong) (simp add: sort_rglob_rs_mset[OF assms])

theorem output_independent_of_iteration_order_witness:
  "mset [[''b.rs''], [''src'', ''a.rs'']] = mset [[''src'', ''a.rs''], [''b.rs'']]
   \<and> main [''/'', ''r''] (\<lambda>p. Inr ''struct Gamma'') (\<lambda>p s. None) [[''b.rs''], [''src'', ''a.rs'']]
     = main [''/'', ''r''] (\<lambda>p. Inr ''struct Gamma'') (\<lambda>p s. None) [[''src'', ''a.rs''], [''b.rs'']]"
proof -
  have h: "mset [[''b.rs''], [''src'', ''a.rs'']] = mset [[''src'', ''a.rs''], [''b.rs'']]"
    by (simp add: add_mset_commute)
  from output_independent_of_iteration_order[OF h] h show ?thesis by blast
qed

end
